theory Spec2Isabelle
  imports Main "HOL-Library.Multiset" "HOL-Library.AList"
begin

section \<open>Commits\<close>

text \<open>
  The program (\<^verbatim>\<open>src/unnamed/part_001\<close>, the current \<^verbatim>\<open>index.js\<close>) handles commits
  through their hashes and reads two fields of a log record, \<^verbatim>\<open>hash\<close> and \<^verbatim>\<open>message\<close>.
  A git hash is content-addressed: it determines the commit's parent, its message and the
  change it introduces, and two commits with the same three have the same hash. The model
  therefore uses the commit object itself as its hash. Merge commits are outside the
  program's scope and are not modelled.
\<close>

type_synonym change = string

datatype commit = Commit (parent: "commit option") (message: string) (changes: "change list")

text \<open>What \<^verbatim>\<open>git log\<close> lists from a tip: the tip first, then its ancestors.\<close>

fun history :: "commit \<Rightarrow> commit list" where
  "history (Commit None m ch) = [Commit None m ch]"
| "history (Commit (Some p) m ch) = Commit (Some p) m ch # history p"

text \<open>JavaScript array reads: \<^verbatim>\<open>xs[i]\<close> is \<^verbatim>\<open>undefined\<close> (here \<open>None\<close>) out of range.\<close>

definition at :: "'a list \<Rightarrow> nat \<Rightarrow> 'a option" where
  "at xs i = (if i < length xs then Some (xs ! i) else None)"

definition firstOf :: "'a list \<Rightarrow> 'a option" where
  "firstOf xs = at xs 0"

definition lastOf :: "'a list \<Rightarrow> 'a option" where
  "lastOf xs = (if xs = [] then None else at xs (length xs - 1))"

text \<open>\<^verbatim>\<open>Array.prototype.indexOf\<close>: the first position of the element, or -1.\<close>

fun indexOf :: "'a list \<Rightarrow> 'a \<Rightarrow> int" where
  "indexOf [] x = - 1"
| "indexOf (y # ys) x =
     (if y = x then 0 else (let i = indexOf ys x in if i < 0 then - 1 else i + 1))"

text \<open>\<^verbatim>\<open>message.split('\n')[0]\<close>\<close>

definition firstLine :: "string \<Rightarrow> string" where
  "firstLine m = takeWhile (\<lambda>c. c \<noteq> CHR 0x0A) m"

section \<open>The selection classifier\<close>

text \<open>
  The pure part of \<^verbatim>\<open>areCommitsLatestAndConsecutive\<close> (lines 170-182), given the hashes
  \<^verbatim>\<open>recentCommits\<close> that the log returned. \<^verbatim>\<open>[...commits].sort(cmp)\<close> with the comparator
  \<^verbatim>\<open>indexOf(a) - indexOf(b)\<close> is a stable sort by the key \<^verbatim>\<open>indexOf\<close>, which is what
  \<open>sort_key\<close> computes. The \<^verbatim>\<open>for\<close> loop runs over the indices \<open>0..<commits.length\<close> and
  returns \<^verbatim>\<open>false\<close> at the first index where the two arrays differ.
\<close>

fun latestLoop :: "'a list \<Rightarrow> 'a list \<Rightarrow> nat list \<Rightarrow> bool" where
  "latestLoop sortedSelectedCommits recentCommits [] = True"
| "latestLoop sortedSelectedCommits recentCommits (i # is) =
     (if at sortedSelectedCommits i \<noteq> at recentCommits i then False
      else latestLoop sortedSelectedCommits recentCommits is)"

definition latestAndConsecutive :: "'a list \<Rightarrow> 'a list \<Rightarrow> bool" where
  "latestAndConsecutive commits recentCommits =
     (let sortedSelectedCommits = sort_key (indexOf recentCommits) commits
      in latestLoop sortedSelectedCommits recentCommits [0..<length commits])"

section \<open>The repository backend\<close>

text \<open>
  The program reaches git through the \<^verbatim>\<open>simple-git\<close> library, which is not part of the
  repository. The backend below does what git does for the calls that the program makes:
  branches are names for tips, a reset moves the tip of the current branch, a cherry-pick
  adds one new commit on top of the current tip, a commit does so when something is staged,
  and a revision \<^verbatim>\<open>c~1\<close> names the parent of \<^verbatim>\<open>c\<close>. What git decides from the content of
  the files (whether a cherry-pick conflicts or comes out empty, whether a checkout is
  refused because of an unresolved conflict) is not computed: any call can be set to fail.
\<close>

datatype resetMode = Soft | Hard

text \<open>The revision \<^verbatim>\<open>`${c}~1`\<close>; \<open>None\<close> is the text \<^verbatim>\<open>undefined~1\<close>, which names nothing.\<close>

datatype revision = ParentOf "commit option"

text \<open>One constructor for each call of the library that the program makes.\<close>

datatype gitop =
    OpLog "nat option"
  | OpStatus
  | OpBranch
  | OpBranchDelete string
  | OpCheckoutNew string
  | OpCheckout string
  | OpReset resetMode revision
  | OpCherryPick commit
  | OpCommit string
  | OpRevParseHead
  | OpStashSave string
  | OpStashPop

text \<open>
  What a call throws. \<open>GitFailed\<close> stands for every failure that the model of the
  repository does not decide by itself (a cherry-pick conflict, a lock, a missing binary);
  \<open>TypeError\<close> is JavaScript's, for a method call on \<^verbatim>\<open>undefined\<close>.
\<close>

datatype error =
    GitFailed gitop
  | BadRevision revision
  | NoCommits
  | BranchExists string
  | UnknownBranch string
  | DeleteCurrent string
  | NoStash
  | TypeError

text \<open>
  The lines that \<^verbatim>\<open>squashCommits\<close> prints (colour left out). The progress lines of
  \<^verbatim>\<open>squashNonConsecutiveCommits\<close> are left out: no call depends on them.
\<close>

datatype line =
    PreviewTitle
  | CurrentHeading
  | CurrentEntry bool commit string
  | AfterHeading
  | NewEntry string
  | UnaffectedEntry commit string
  | DetailsHeading
  | SquashCount nat
  | NewMessage string
  | UncommittedCount nat
  | StashWarning
  | AdvancedNotice
  | Success
  | ErrorDuringSquash error

text \<open>
  The state the program runs in. The uncommitted changes are \<open>staged\<close> (in the index),
  \<open>modified\<close> (changes to tracked files that are not staged) and \<open>untracked\<close> (files that git
  does not track); \<^verbatim>\<open>status().files\<close> lists all three. A stash entry keeps the staged and
  the modified changes it took. \<open>clock\<close> is what \<^verbatim>\<open>Date.now()\<close> reads. \<open>trace\<close> records every
  call made to the library, in order, and \<open>faults\<close> lists the positions in the trace of the
  calls that fail with \<open>GitFailed\<close>: it lets any call fail, as a real repository can.
\<close>

record world =
  branches :: "(string \<times> commit) list"
  current :: string
  staged :: "change list"
  modified :: "change list"
  untracked :: "change list"
  stashes :: "(string \<times> change list \<times> change list) list"
  clock :: nat
  faults :: "nat list"
  trace :: "gitop list"
  console :: "line list"

text \<open>The changes that are not staged.\<close>

definition unstaged :: "world \<Rightarrow> change list" where
  "unstaged s = modified s @ untracked s"

subsection \<open>Asynchronous calls that may throw\<close>

type_synonym 'a act = "world \<Rightarrow> (error + 'a) \<times> world"

definition ret :: "'a \<Rightarrow> 'a act" where
  "ret x s = (Inr x, s)"

definition throw :: "error \<Rightarrow> 'a act" where
  "throw e s = (Inl e, s)"

text \<open>\<^verbatim>\<open>const x = await f; g(x)\<close>: an exception of \<open>f\<close> skips \<open>g\<close>.\<close>

definition await :: "'a act \<Rightarrow> ('a \<Rightarrow> 'b act) \<Rightarrow> 'b act" where
  "await f g s = (case f s of (Inl e, s') \<Rightarrow> (Inl e, s') | (Inr x, s') \<Rightarrow> g x s')"

text \<open>\<^verbatim>\<open>try { f } catch (error) { h(error) }\<close>\<close>

definition tryCatch :: "'a act \<Rightarrow> (error \<Rightarrow> 'a act) \<Rightarrow> 'a act" where
  "tryCatch f h s = (case f s of (Inl e, s') \<Rightarrow> h e s' | (Inr x, s') \<Rightarrow> (Inr x, s'))"

text \<open>\<^verbatim>\<open>f.catch(() => {})\<close>\<close>

definition suppress :: "'a act \<Rightarrow> unit act" where
  "suppress f s = (Inr (), snd (f s))"

text \<open>\<^verbatim>\<open>for (const x of xs) { await f(x) }\<close>\<close>

fun forEach :: "'a list \<Rightarrow> ('a \<Rightarrow> unit act) \<Rightarrow> unit act" where
  "forEach [] f = ret ()"
| "forEach (x # xs) f = await (f x) (\<lambda>_. forEach xs f)"

definition say :: "line \<Rightarrow> unit act" where
  "say l s = (Inr (), s\<lparr>console := console s @ [l]\<rparr>)"

definition now :: "nat act" where
  "now s = (Inr (clock s), s)"

subsection \<open>The calls\<close>

text \<open>A call is recorded in the trace, then fails if its position is a fault, else runs.\<close>

definition call :: "gitop \<Rightarrow> 'a act \<Rightarrow> 'a act" where
  "call op run s =
     (let s' = s\<lparr>trace := trace s @ [op]\<rparr>
      in if length (trace s) \<in> set (faults s) then (Inl (GitFailed op), s') else run s')"

definition tip :: "world \<Rightarrow> commit option" where
  "tip s = map_of (branches s) (current s)"

definition resolve :: "revision \<Rightarrow> error + commit" where
  "resolve r =
     (case r of
        ParentOf None \<Rightarrow> Inl (BadRevision r)
      | ParentOf (Some c) \<Rightarrow> (case parent c of None \<Rightarrow> Inl (BadRevision r) | Some p \<Rightarrow> Inr p))"

text \<open>\<^verbatim>\<open>git.log({ maxCount })\<close> and \<^verbatim>\<open>git.log()\<close>: the \<^verbatim>\<open>all\<close> array of the answer.\<close>

definition git_log :: "nat option \<Rightarrow> commit list act" where
  "git_log maxCount = call (OpLog maxCount) (\<lambda>s.
     case tip s of
       None \<Rightarrow> (Inl NoCommits, s)
     | Some t \<Rightarrow> (Inr (case maxCount of None \<Rightarrow> history t | Some n \<Rightarrow> take n (history t)), s))"

text \<open>\<^verbatim>\<open>git.status()\<close>: the \<^verbatim>\<open>files\<close> array of the answer.\<close>

definition git_status :: "change list act" where
  "git_status = call OpStatus (\<lambda>s. (Inr (staged s @ unstaged s), s))"

text \<open>\<^verbatim>\<open>git.branch()\<close>: the \<^verbatim>\<open>current\<close> field of the answer.\<close>

definition git_branch :: "string act" where
  "git_branch = call OpBranch (\<lambda>s. (Inr (current s), s))"

text \<open>\<^verbatim>\<open>git.checkout(['-b', name])\<close>\<close>

definition git_checkout_new :: "string \<Rightarrow> unit act" where
  "git_checkout_new name = call (OpCheckoutNew name) (\<lambda>s.
     if name \<in> fst ` set (branches s) then (Inl (BranchExists name), s)
     else (case tip s of
             None \<Rightarrow> (Inr (), s\<lparr>current := name\<rparr>)
           | Some t \<Rightarrow> (Inr (), s\<lparr>branches := (name, t) # branches s, current := name\<rparr>)))"

text \<open>\<^verbatim>\<open>git.checkout([name])\<close>\<close>

definition git_checkout :: "string \<Rightarrow> unit act" where
  "git_checkout name = call (OpCheckout name) (\<lambda>s.
     case map_of (branches s) name of
       None \<Rightarrow> (Inl (UnknownBranch name), s)
     | Some t \<Rightarrow> (Inr (), s\<lparr>current := name\<rparr>))"

text \<open>
  \<^verbatim>\<open>git.reset(['--soft', r])\<close> and \<^verbatim>\<open>git.reset(['--hard', r])\<close>. Both move the tip of the
  current branch. A soft reset keeps the content: the changes of the commits that the tip
  leaves behind become staged, oldest first. A hard reset discards the staged and the
  modified changes; untracked files stay.
\<close>

definition leftBehind :: "commit option \<Rightarrow> commit \<Rightarrow> change list" where
  "leftBehind old target =
     (case old of
        None \<Rightarrow> []
      | Some t \<Rightarrow> concat (map changes (rev (takeWhile (\<lambda>c. c \<noteq> target) (history t)))))"

definition git_reset :: "resetMode \<Rightarrow> revision \<Rightarrow> unit act" where
  "git_reset mode r = call (OpReset mode r) (\<lambda>s.
     case resolve r of
       Inl e \<Rightarrow> (Inl e, s)
     | Inr target \<Rightarrow>
         (case mode of
            Soft \<Rightarrow> (Inr (), s\<lparr>branches := AList.update (current s) target (branches s),
                               staged := leftBehind (tip s) target @ staged s\<rparr>)
          | Hard \<Rightarrow> (Inr (), s\<lparr>branches := AList.update (current s) target (branches s),
                               staged := [], modified := []\<rparr>)))"

text \<open>\<^verbatim>\<open>git.raw(['cherry-pick', c])\<close>: the change of \<open>c\<close> as a new commit on the tip.\<close>

definition git_cherry_pick :: "commit \<Rightarrow> unit act" where
  "git_cherry_pick c = call (OpCherryPick c) (\<lambda>s.
     case tip s of
       None \<Rightarrow> (Inl NoCommits, s)
     | Some t \<Rightarrow> (Inr (), s\<lparr>branches :=
         AList.update (current s) (Commit (Some t) (message c) (changes c)) (branches s)\<rparr>))"

text \<open>
  \<^verbatim>\<open>git.commit(message)\<close>: what is staged becomes a new commit on the tip. With nothing
  staged git makes no commit and writes nothing to its error stream, which the library does
  not take for a failure: the call returns and the tip stays.
\<close>

definition git_commit :: "string \<Rightarrow> unit act" where
  "git_commit msg = call (OpCommit msg) (\<lambda>s.
     if staged s = [] then (Inr (), s)
     else (Inr (), s\<lparr>branches :=
             AList.update (current s) (Commit (tip s) msg (staged s)) (branches s),
           staged := []\<rparr>))"

text \<open>\<^verbatim>\<open>git.revparse(['HEAD'])\<close>\<close>

definition git_revparse_head :: "commit act" where
  "git_revparse_head = call OpRevParseHead (\<lambda>s.
     case tip s of None \<Rightarrow> (Inl NoCommits, s) | Some t \<Rightarrow> (Inr t, s))"

text \<open>\<^verbatim>\<open>git.branch(['-D', name])\<close>\<close>

definition git_branch_delete :: "string \<Rightarrow> unit act" where
  "git_branch_delete name = call (OpBranchDelete name) (\<lambda>s.
     if name = current s then (Inl (DeleteCurrent name), s)
     else if name \<notin> fst ` set (branches s) then (Inl (UnknownBranch name), s)
     else (Inr (), s\<lparr>branches := AList.delete name (branches s)\<rparr>))"

text \<open>
  \<^verbatim>\<open>git.stash(['save', label])\<close>: the staged and the modified changes go into a new stash
  entry; untracked files are not taken. With nothing staged and nothing modified git says
  that there are no local changes to save, makes no entry and succeeds.
\<close>

definition git_stash_save :: "string \<Rightarrow> unit act" where
  "git_stash_save label = call (OpStashSave label) (\<lambda>s.
     if staged s = [] \<and> modified s = [] then (Inr (), s)
     else (Inr (), s\<lparr>stashes := (label, staged s, modified s) # stashes s,
                     staged := [], modified := []\<rparr>))"

text \<open>
  \<^verbatim>\<open>git.stash(['pop'])\<close>, without \<^verbatim>\<open>--index\<close>: the changes of the newest entry come back as
  modified, also those that were staged when they were saved. With no entry the call fails.
\<close>

definition git_stash_pop :: "unit act" where
  "git_stash_pop = call OpStashPop (\<lambda>s.
     case stashes s of
       [] \<Rightarrow> (Inl NoStash, s)
     | (label, st, un) # rest \<Rightarrow>
         (Inr (), s\<lparr>stashes := rest, modified := st @ un @ modified s\<rparr>))"

section \<open>The program\<close>

subsection \<open>The selection\<close>

text \<open>
  \<^verbatim>\<open>selectCommits\<close> (lines 18-39). The choices are the commits of the log, in the order of
  the log. The checkbox prompt answers with the values of the ticked choices, in the order of
  the choices, and takes no answer with fewer than two values (here \<open>None\<close>). \<open>ticked\<close> holds
  the commits that the user ticks, in the order of ticking.
\<close>

definition selectCommits :: "commit list \<Rightarrow> commit list \<Rightarrow> commit list option" where
  "selectCommits commits ticked =
     (let selectedCommits = filter (\<lambda>c. c \<in> set ticked) commits
      in if length selectedCommits < 2 then None else Some selectedCommits)"

subsection \<open>The fast path\<close>

text \<open>\<^verbatim>\<open>squashLatestCommits\<close> (lines 62-69).\<close>

definition squashLatestCommits :: "commit list \<Rightarrow> string \<Rightarrow> unit act" where
  "squashLatestCommits commits msg =
     (let oldestCommit = lastOf commits
      in await (git_reset Soft (ParentOf oldestCommit)) (\<lambda>_.
         git_commit msg))"

subsection \<open>The general path\<close>

text \<open>The decimal digits of \<^verbatim>\<open>Date.now()\<close> in the name of the temporary branch.\<close>

fun decimal :: "nat \<Rightarrow> string" where
  "decimal n =
     (if n < 10 then [char_of (48 + n)] else decimal (n div 10) @ [char_of (48 + n mod 10)])"

declare decimal.simps [simp del]

definition tempName :: "nat \<Rightarrow> string" where
  "tempName t = ''temp-squash-'' @ decimal t"

text \<open>
  Lines 83-89: the commits of the log before the newest selected one, which is
  \<^verbatim>\<open>commits[0]\<close>; the loop breaks there.
\<close>

fun collectLater :: "commit option \<Rightarrow> commit list \<Rightarrow> commit list" where
  "collectLater newestSelectedCommit [] = []"
| "collectLater newestSelectedCommit (c # cs) =
     (if Some c = newestSelectedCommit then [] else c # collectLater newestSelectedCommit cs)"

text \<open>
  Phase 3 (lines 97-122), on the temporary branch: reset to the parent of the oldest
  selected commit, which is \<^verbatim>\<open>commits[commits.length - 1]\<close>, cherry-pick
  \<^verbatim>\<open>commits.reverse()\<close>, reset softly to the same parent and commit. It returns the oldest
  selected commit and the new commit. With no commit selected, \<^verbatim>\<open>oldestCommit.slice\<close>
  throws at line 99. \<^verbatim>\<open>reverse()\<close> reverses the array in place, here and in phase 4; the
  array is not read again afterwards, so the model reverses a copy.
\<close>

definition reconstructHistory :: "commit list \<Rightarrow> string \<Rightarrow> (commit \<times> commit) act" where
  "reconstructHistory commits msg =
     (case lastOf commits of
        None \<Rightarrow> throw TypeError
      | Some oldestCommit \<Rightarrow>
          await (git_reset Hard (ParentOf (Some oldestCommit))) (\<lambda>_.
          await (forEach (rev commits) git_cherry_pick) (\<lambda>_.
          await (git_reset Soft (ParentOf (Some oldestCommit))) (\<lambda>_.
          await (git_commit msg) (\<lambda>_.
          await git_revparse_head (\<lambda>newCommit.
          ret (oldestCommit, newCommit)))))))"

text \<open>
  Phase 4 (lines 124-144), back on the original branch: reset hard to the same parent,
  cherry-pick the new commit, then \<^verbatim>\<open>laterCommits.reverse()\<close>.
\<close>

definition applyToMainBranch :: "string \<Rightarrow> commit \<Rightarrow> commit \<Rightarrow> commit list \<Rightarrow> unit act" where
  "applyToMainBranch currentBranch oldestCommit newCommit laterCommits =
     await (git_checkout currentBranch) (\<lambda>_.
     await (git_reset Hard (ParentOf (Some oldestCommit))) (\<lambda>_.
     await (git_cherry_pick newCommit) (\<lambda>_.
     if laterCommits \<noteq> [] then forEach (rev laterCommits) git_cherry_pick else ret ())))"

text \<open>The \<^verbatim>\<open>try\<close> block (lines 96-151); phase 5 deletes the temporary branch.\<close>

definition tryBlock :: "string \<Rightarrow> string \<Rightarrow> commit list \<Rightarrow> commit list \<Rightarrow> string \<Rightarrow> unit act" where
  "tryBlock currentBranch tempBranch laterCommits commits msg =
     await (reconstructHistory commits msg) (\<lambda>(oldestCommit, newCommit).
     await (applyToMainBranch currentBranch oldestCommit newCommit laterCommits) (\<lambda>_.
     git_branch_delete tempBranch))"

text \<open>The \<^verbatim>\<open>catch\<close> block (lines 152-162).\<close>

definition catchBlock :: "string \<Rightarrow> string \<Rightarrow> error \<Rightarrow> unit act" where
  "catchBlock currentBranch tempBranch err =
     await (git_checkout currentBranch) (\<lambda>_.
     await (suppress (git_branch_delete tempBranch)) (\<lambda>_.
     throw err))"

text \<open>\<^verbatim>\<open>squashNonConsecutiveCommits\<close> (lines 71-163).\<close>

definition squashNonConsecutiveCommits :: "commit list \<Rightarrow> string \<Rightarrow> unit act" where
  "squashNonConsecutiveCommits commits msg =
     await git_branch (\<lambda>currentBranch.
     await now (\<lambda>t.
     let tempBranch = tempName t;
         newestSelectedCommit = firstOf commits
     in await (git_log None) (\<lambda>log.
        let laterCommits = collectLater newestSelectedCommit log
        in await (git_checkout_new tempBranch) (\<lambda>_.
           tryCatch (tryBlock currentBranch tempBranch laterCommits commits msg)
                    (catchBlock currentBranch tempBranch)))))"

subsection \<open>The classifier\<close>

text \<open>\<^verbatim>\<open>areCommitsLatestAndConsecutive\<close> (lines 165-183).\<close>

definition areCommitsLatestAndConsecutive :: "commit list \<Rightarrow> bool act" where
  "areCommitsLatestAndConsecutive commits =
     await (git_log (Some (length commits))) (\<lambda>recentCommits.
     ret (latestAndConsecutive commits recentCommits))"

subsection \<open>The orchestrator\<close>

text \<open>The dry-run branch of \<^verbatim>\<open>squashCommits\<close> (lines 190-229).\<close>

definition currentEntries :: "commit list \<Rightarrow> commit list \<Rightarrow> line list" where
  "currentEntries commits log =
     map (\<lambda>c. CurrentEntry (c \<in> set commits) c (firstLine (message c))) log"

definition afterEntries :: "commit list \<Rightarrow> string \<Rightarrow> commit list \<Rightarrow> line list" where
  "afterEntries commits msg log =
     concat (map (\<lambda>c.
       if c \<in> set commits then (if Some c = lastOf commits then [NewEntry msg] else [])
       else [UnaffectedEntry c (firstLine (message c))]) log)"

definition dryRun :: "commit list \<Rightarrow> string \<Rightarrow> change list \<Rightarrow> unit act" where
  "dryRun commits msg files =
     await (git_log (Some (max 10 (length commits + 3)))) (\<lambda>log.
     forEach
       ([PreviewTitle, CurrentHeading] @ currentEntries commits log
        @ [AfterHeading] @ afterEntries commits msg log
        @ [DetailsHeading, SquashCount (length commits), NewMessage msg]
        @ (if length files > 0 then [UncommittedCount (length files)] else []))
       say)"

text \<open>Lines 236-243: the classifier chooses the path.\<close>

definition rewrite :: "commit list \<Rightarrow> string \<Rightarrow> unit act" where
  "rewrite commits msg =
     await (areCommitsLatestAndConsecutive commits) (\<lambda>useSimpleApproach.
     if useSimpleApproach then squashLatestCommits commits msg
     else await (say AdvancedNotice) (\<lambda>_. squashNonConsecutiveCommits commits msg))"

definition stashLabel :: string where
  "stashLabel = ''temporary stash before squash''"

text \<open>Lines 231-234 and 245-247: the stash around the rewrite.\<close>

definition stashIfDirty :: "change list \<Rightarrow> unit act" where
  "stashIfDirty files =
     (if length files > 0 then await (say StashWarning) (\<lambda>_. git_stash_save stashLabel)
      else ret ())"

definition popIfDirty :: "change list \<Rightarrow> unit act" where
  "popIfDirty files = (if length files > 0 then git_stash_pop else ret ())"

text \<open>The \<^verbatim>\<open>try\<close> block of \<^verbatim>\<open>squashCommits\<close> (lines 187-249).\<close>

definition squashCommitsTry :: "commit list \<Rightarrow> string \<Rightarrow> bool \<Rightarrow> unit act" where
  "squashCommitsTry commits msg isDryRun =
     await git_status (\<lambda>files.
     if isDryRun then dryRun commits msg files
     else
       await (stashIfDirty files) (\<lambda>_.
       await (rewrite commits msg) (\<lambda>_.
       await (popIfDirty files) (\<lambda>_.
       say Success))))"

text \<open>
  \<^verbatim>\<open>squashCommits\<close> (lines 185-254): it returns, or prints the error and leaves the
  process with \<^verbatim>\<open>process.exit(1)\<close>.
\<close>

datatype outcome = Returned | Exited nat

definition squashCommits :: "commit list \<Rightarrow> string \<Rightarrow> bool \<Rightarrow> world \<Rightarrow> outcome \<times> world" where
  "squashCommits commits msg isDryRun s =
     (case squashCommitsTry commits msg isDryRun s of
        (Inr _, s') \<Rightarrow> (Returned, s')
      | (Inl e, s') \<Rightarrow> (Exited 1, snd (say (ErrorDuringSquash e) s')))"

section \<open>Notions used by the properties\<close>

text \<open>
  Positions in a commit sequence that lists the newest commit first: \<open>a\<close> is newer than
  \<open>b\<close> when it stands before it.
\<close>

definition newer :: "'a list \<Rightarrow> 'a \<Rightarrow> 'a \<Rightarrow> bool" where
  "newer sequence a b = (0 \<le> indexOf sequence a \<and> indexOf sequence a < indexOf sequence b)"

text \<open>
  The two kinds of gap: an unselected commit strictly between two selected commits, and an
  unselected commit that is newer than all selected commits.
\<close>

definition between :: "'a list \<Rightarrow> 'a list \<Rightarrow> 'a \<Rightarrow> bool" where
  "between sequence commits u =
     (\<exists>a \<in> set commits. \<exists>b \<in> set commits. newer sequence a u \<and> newer sequence u b)"

definition newerThanAll :: "'a list \<Rightarrow> 'a list \<Rightarrow> 'a \<Rightarrow> bool" where
  "newerThanAll sequence commits u = (commits \<noteq> [] \<and> list_all (newer sequence u) commits)"

definition gap :: "'a list \<Rightarrow> 'a list \<Rightarrow> 'a \<Rightarrow> bool" where
  "gap sequence commits u =
     (u \<notin> set commits \<and> (between sequence commits u \<or> newerThanAll sequence commits u))"

subsection \<open>A repository with five commits\<close>

definition commit1 :: commit where "commit1 = Commit None ''one'' [''a'']"
definition commit2 :: commit where "commit2 = Commit (Some commit1) ''two'' [''b'']"
definition commit3 :: commit where "commit3 = Commit (Some commit2) ''three'' [''c'']"
definition commit4 :: commit where "commit4 = Commit (Some commit3) ''four'' [''d'']"
definition commit5 :: commit where "commit5 = Commit (Some commit4) ''five'' [''e'']"

definition repo5 :: world where
  "repo5 = \<lparr>branches = [(''main'', commit5)], current = ''main'', staged = [], modified = [],
     untracked = [],
     stashes = [], clock = 42, faults = [], trace = [], console = []\<rparr>"

text \<open>The same repository with uncommitted changes to two tracked files.\<close>

definition dirty5 :: world where
  "dirty5 = repo5\<lparr>modified := [''notes.txt'', ''todo.txt'']\<rparr>"

text \<open>
  The same repository after its newest commit was amended: a selection made on \<open>repo5\<close>
  that holds \<open>commit5\<close> is stale here.
\<close>

definition commit5b :: commit where
  "commit5b = Commit (Some commit4) ''five, amended'' [''e'', ''f'']"

definition moved5 :: world where
  "moved5 = repo5\<lparr>branches := [(''main'', commit5b)]\<rparr>"

text \<open>
  The same repository when the sixth and the seventh call fail: in the general path for the
  selection of \<open>commit4\<close> and \<open>commit2\<close> these are the cherry-pick of \<open>commit4\<close>, which
  conflicts without \<open>commit3\<close>, and the checkout that follows, which git refuses while the
  conflict is unresolved.
\<close>

definition conflict5 :: world where
  "conflict5 = repo5\<lparr>faults := [5, 6]\<rparr>"

text \<open>
  The states of the run on \<open>conflict5\<close> when the \<^verbatim>\<open>try\<close> block and the \<^verbatim>\<open>catch\<close> block
  start.
\<close>

definition conflictAtTry :: world where
  "conflictAtTry = conflict5\<lparr>trace := [OpBranch, OpLog None, OpCheckoutNew ''temp-squash-42''],
     branches := [(''temp-squash-42'', commit5), (''main'', commit5)],
     current := ''temp-squash-42''\<rparr>"

definition conflictAtCatch :: world where
  "conflictAtCatch = conflict5\<lparr>trace := [OpBranch, OpLog None, OpCheckoutNew ''temp-squash-42'',
       OpReset Hard (ParentOf (Some commit2)), OpCherryPick commit2, OpCherryPick commit4],
     branches := [(''temp-squash-42'', Commit (Some commit1) ''two'' [''b'']), (''main'', commit5)],
     current := ''temp-squash-42''\<rparr>"

text \<open>
  The repository with the amended commit when the fifteenth call fails: in the general path
  for the stale selection of \<open>commit5\<close> and \<open>commit4\<close>, where every commit of the log counts
  as a later commit, this is the cherry-pick of \<open>commit1\<close> onto a branch that has its change
  already, which git refuses as empty.
\<close>

definition emptyPick5 :: world where
  "emptyPick5 = moved5\<lparr>faults := [14]\<rparr>"

text \<open>
  The same repository when only the sixth call fails: the cherry-pick of \<open>commit4\<close> fails
  and the calls of the \<^verbatim>\<open>catch\<close> block succeed.
\<close>

definition pickFails5 :: world where
  "pickFails5 = repo5\<lparr>faults := [5]\<rparr>"

subsection \<open>The calls of a run\<close>

text \<open>
  The cherry-picks of a list of calls, each with the branch that is checked out when it is
  made, if every checkout of the list succeeds; \<open>b\<close> is the branch checked out at the start.
\<close>

fun pickedOn :: "string \<Rightarrow> gitop list \<Rightarrow> (string \<times> commit) list" where
  "pickedOn b [] = []"
| "pickedOn b (OpCheckoutNew b' # ops) = pickedOn b' ops"
| "pickedOn b (OpCheckout b' # ops) = pickedOn b' ops"
| "pickedOn b (OpCherryPick c # ops) = (b, c) # pickedOn b ops"
| "pickedOn b (_ # ops) = pickedOn b ops"


text \<open>The calls made between a state and a later one.\<close>

definition newCalls :: "world \<Rightarrow> world \<Rightarrow> gitop list" where
  "newCalls s s' = drop (length (trace s)) (trace s')"

text \<open>The calls that only read the repository.\<close>

fun readOnly :: "gitop \<Rightarrow> bool" where
  "readOnly (OpLog n) = True"
| "readOnly OpStatus = True"
| "readOnly OpBranch = True"
| "readOnly OpRevParseHead = True"
| "readOnly op = False"

text \<open>The calls that the two squash paths and the classifier make: all but status and stash.\<close>

fun historyCall :: "gitop \<Rightarrow> bool" where
  "historyCall OpStatus = False"
| "historyCall (OpStashSave label) = False"
| "historyCall OpStashPop = False"
| "historyCall op = True"

fun isCherryPick :: "gitop \<Rightarrow> bool" where
  "isCherryPick (OpCherryPick c) = True"
| "isCherryPick op = False"

fun isHardReset :: "gitop \<Rightarrow> bool" where
  "isHardReset (OpReset Hard r) = True"
| "isHardReset op = False"

text \<open>
  \<open>emits P f\<close>: whatever the state and the outcome, \<open>f\<close> only adds calls to the trace, and
  every call it adds satisfies \<open>P\<close>.
\<close>

definition emits :: "(gitop \<Rightarrow> bool) \<Rightarrow> 'a act \<Rightarrow> bool" where
  "emits P f = (\<forall>s. \<exists>calls. trace (snd (f s)) = trace s @ calls \<and> list_all P calls)"

subsection \<open>What a squash builds\<close>

text \<open>
  The tip after the commits of a list are cherry-picked, first to last, on a base, and the
  new commits this makes, oldest first.
\<close>

fun replay :: "commit \<Rightarrow> commit list \<Rightarrow> commit" where
  "replay base [] = base"
| "replay base (c # cs) = replay (Commit (Some base) (message c) (changes c)) cs"

fun replayed :: "commit \<Rightarrow> commit list \<Rightarrow> commit list" where
  "replayed base [] = []"
| "replayed base (c # cs) =
     Commit (Some base) (message c) (changes c)
       # replayed (Commit (Some base) (message c) (changes c)) cs"

text \<open>
  The one new commit of a squash on the parent \<open>p\<close>: it holds the changes of the listed
  commits, last listed first.
\<close>

definition squashed :: "commit \<Rightarrow> string \<Rightarrow> commit list \<Rightarrow> commit" where
  "squashed p msg commits = Commit (Some p) msg (concat (map changes (rev commits)))"

text \<open>The calls of a run of the general path in which every call succeeds.\<close>

definition generalCalls ::
  "string \<Rightarrow> string \<Rightarrow> commit \<Rightarrow> commit \<Rightarrow> commit list \<Rightarrow> string \<Rightarrow> commit list \<Rightarrow> gitop list" where
  "generalCalls currentBranch tempBranch oldestCommit newCommit commits msg laterCommits =
     [OpBranch, OpLog None, OpCheckoutNew tempBranch,
      OpReset Hard (ParentOf (Some oldestCommit))]
     @ map OpCherryPick (rev commits)
     @ [OpReset Soft (ParentOf (Some oldestCommit)), OpCommit msg, OpRevParseHead,
        OpCheckout currentBranch, OpReset Hard (ParentOf (Some oldestCommit)),
        OpCherryPick newCommit]
     @ map OpCherryPick (rev laterCommits)
     @ [OpBranchDelete tempBranch]"

subsection \<open>The original branch\<close>

text \<open>
  The general path resets the original branch at lines 126-129: it checks the branch out and
  calls the hard reset next. \<open>resetsOriginal b calls\<close> says that the calls hold a checkout of
  \<open>b\<close> directly followed by a hard reset.
\<close>

definition resetsOriginal :: "string \<Rightarrow> gitop list \<Rightarrow> bool" where
  "resetsOriginal b calls =
     list_ex (\<lambda>(first, second). first = OpCheckout b \<and> isHardReset second) (zip calls (tl calls))"

text \<open>
  \<open>keepsBranch b f\<close>: run on another branch than \<open>b\<close>, \<open>f\<close> stays on that branch and leaves
  the tip of \<open>b\<close> as it is.
\<close>

definition keepsBranch :: "string \<Rightarrow> 'a act \<Rightarrow> bool" where
  "keepsBranch b f =
     (\<forall>s. current s \<noteq> b \<longrightarrow>
        current (snd (f s)) = current s \<and> map_of (branches (snd (f s))) b = map_of (branches s) b)"

subsection \<open>Runs that succeed\<close>

text \<open>
  \<open>unfaulted f\<close>: a run of \<open>f\<close> that succeeds has met no fault, so it is the same run when
  the state lists no faults at all.
\<close>

definition unfaulted :: "'a act \<Rightarrow> bool" where
  "unfaulted f =
     (\<forall>s x s'. f s = (Inr x, s') \<longrightarrow> f (s\<lparr>faults := []\<rparr>) = (Inr x, s'\<lparr>faults := []\<rparr>))"

section \<open>Lemmas about the classifier\<close>

lemma indexOf_ge: "- 1 \<le> indexOf xs x"
  by (induction xs) (auto simp: Let_def)

lemma indexOf_neg_iff: "indexOf xs x < 0 \<longleftrightarrow> x \<notin> set xs"
  using indexOf_ge [of _ x] by (induction xs) (auto simp: Let_def)

lemma indexOf_absent: "x \<notin> set xs \<Longrightarrow> indexOf xs x = - 1"
  using indexOf_ge [of xs x] indexOf_neg_iff [of xs x] by simp

lemma indexOf_nth: "x \<in> set xs \<Longrightarrow> 0 \<le> indexOf xs x \<and> nat (indexOf xs x) < length xs \<and> xs ! nat (indexOf xs x) = x"
proof (induction xs)
  case Nil then show ?case by simp
next
  case (Cons y ys)
  show ?case
  proof (cases "y = x")
    case True then show ?thesis by simp
  next
    case False
    with Cons.prems have "x \<in> set ys" by simp
    from Cons.IH [OF this] False show ?thesis
      by (auto simp: Let_def nat_add_distrib)
  qed
qed

lemma indexOf_inj: 
  assumes "x \<in> set xs" "indexOf xs x = indexOf xs y" shows "x = y"
proof -
  have "0 \<le> indexOf xs y" using indexOf_nth [OF assms(1)] assms(2) by simp
  then have "y \<in> set xs" using indexOf_neg_iff [of xs y] by auto
  from indexOf_nth [OF this] indexOf_nth [OF assms(1)] assms(2) show ?thesis by metis
qed

lemma latestLoop_iff: "latestLoop s r is \<longleftrightarrow> (\<forall>i\<in>set is. at s i = at r i)"
  by (induction "is") auto

lemma history_size: "c \<in> set (history t) \<Longrightarrow> size c \<le> size t"
  by (induction t rule: history.induct) auto

lemma distinct_history: "distinct (history t)"
proof (induction t rule: history.induct)
  case (1 m ch) show ?case by simp
next
  case (2 p m ch)
  have "Commit (Some p) m ch \<notin> set (history p)"
    using history_size [of "Commit (Some p) m ch" p] by auto
  with 2 show ?case by simp
qed

lemma indexOf_index: "distinct xs \<Longrightarrow> i < length xs \<Longrightarrow> indexOf xs (xs ! i) = int i"
  by (metis distinct_conv_nth indexOf_nth int_nat_eq nth_mem)

lemma sort_key_inj_cong:
  assumes "mset xs = mset ys" "inj_on k (set xs)"
  shows "sort_key k xs = sort_key k ys"
proof (rule properties_for_sort_key)
  show "mset (sort_key k ys) = mset xs" using assms by simp
  show "sorted (map k (sort_key k ys))" by simp
  fix x assume "x \<in> set (sort_key k ys)"
  then have x: "x \<in> set xs" using assms(1) by (metis mset_eq_setD set_sort)
  have sets: "set ys = set xs" using assms(1) by (metis mset_eq_setD)
  have "filter (\<lambda>z. k x = k z) (sort_key k ys) = filter (\<lambda>z. x = z) (sort_key k ys)"
    using x sets assms(2) by (intro filter_cong) (auto simp: inj_on_def)
  also have "\<dots> = replicate (count (mset (sort_key k ys)) x) x"
    by (metis replicate_count_mset_eq_filter_eq)
  also have "\<dots> = replicate (count (mset xs) x) x" using assms(1) by simp
  also have "\<dots> = filter (\<lambda>z. x = z) xs" by (metis replicate_count_mset_eq_filter_eq)
  also have "\<dots> = filter (\<lambda>z. k x = k z) xs"
    using x assms(2) by (intro filter_cong) (auto simp: inj_on_def)
  finally show "filter (\<lambda>z. k x = k z) (sort_key k ys) = filter (\<lambda>z. k x = k z) xs" .
qed

lemma sorted_head_min:
  assumes "x \<in> set xs"
  shows "\<exists>y. at (sort_key k xs) 0 = Some y \<and> y \<in> set xs \<and> k y \<le> k x"
proof -
  have mem: "x \<in> set (sort_key k xs)" using assms by simp
  then obtain y ys where eq: "sort_key k xs = y # ys" by (cases "sort_key k xs") auto
  have "sorted (map k (y # ys))" using sorted_sort_key [of k xs] eq by simp
  moreover have "x \<in> set (y # ys)" using mem eq by simp
  ultimately have "k y \<le> k x" by auto
  moreover have "y \<in> set xs" using eq set_sort [of k xs] by (metis list.set_intros(1))
  ultimately show ?thesis using eq by (simp add: at_def)
qed

lemma absent_not_latest:
  assumes "x \<in> set commits" "x \<notin> set recent"
  shows "\<not> latestAndConsecutive commits recent"
proof -
  obtain y where y: "at (sort_key (indexOf recent) commits) 0 = Some y" "y \<in> set commits"
      "indexOf recent y \<le> indexOf recent x"
    using sorted_head_min [OF assms(1)] by blast
  have "indexOf recent y < 0" using y(3) indexOf_absent [OF assms(2)] by simp
  then have "y \<notin> set recent" by (simp add: indexOf_neg_iff)
  then have "at recent 0 \<noteq> Some y" by (auto simp: at_def split: if_splits)
  moreover have "0 \<in> set [0..<length commits]" using assms(1) by (cases commits) auto
  ultimately show ?thesis
    unfolding latestAndConsecutive_def Let_def latestLoop_iff using y(1) by metis
qed

lemma present_sorted_eq:
  assumes "set commits \<subseteq> set recent" "mset commits = mset commits'"
  shows "sort_key (indexOf recent) commits = sort_key (indexOf recent) commits'"
proof (rule sort_key_inj_cong [OF assms(2)])
  show "inj_on (indexOf recent) (set commits)"
    using assms(1) by (auto simp: inj_on_def dest: indexOf_inj [rotated])
qed

lemma latestAndConsecutive_perm:
  assumes "mset commits = mset commits'"
  shows "latestAndConsecutive commits recent = latestAndConsecutive commits' recent"
proof (cases "set commits \<subseteq> set recent")
  case True
  have "length commits = length commits'" using assms by (metis size_mset)
  with present_sorted_eq [OF True assms] show ?thesis
    by (simp add: latestAndConsecutive_def)
next
  case False
  then obtain x where x: "x \<in> set commits" "x \<notin> set recent" by blast
  then have "x \<in> set commits'" using assms by (metis mset_eq_setD)
  with x absent_not_latest show ?thesis by metis
qed

lemma sorted_indexOf_self: "distinct xs \<Longrightarrow> sorted (map (indexOf xs) xs)"
proof -
  assume d: "distinct xs"
  have "map (indexOf xs) xs = map int [0..<length xs]"
    by (rule nth_equalityI) (simp_all add: indexOf_index [OF d])
  moreover have "sorted (map int [0..<length xs])"
    by (simp add: sorted_iff_nth_mono)
  ultimately show ?thesis by simp
qed

lemma same_set_latest:
  assumes "distinct commits" "distinct recent" "set commits = set recent"
  shows "latestAndConsecutive commits recent"
proof -
  have m: "mset commits = mset recent"
    using assms by (simp add: set_eq_iff_mset_eq_distinct)
  then have len: "length commits = length recent" by (metis size_mset)
  have "sort_key (indexOf recent) commits = sort_key (indexOf recent) recent"
    using present_sorted_eq [OF _ m] assms(3) by simp
  also have "\<dots> = recent"
    by (rule sort_key_id_if_sorted) (rule sorted_indexOf_self [OF assms(2)])
  finally show ?thesis
    by (simp add: latestAndConsecutive_def latestLoop_iff)
qed

lemma take_bound: "card (set (take n xs)) \<le> n"
  using card_length [of "take n xs"] by simp

lemma in_take_nth:
  assumes "c \<in> set (take n xs)"
  shows "\<exists>j. j < n \<and> j < length xs \<and> xs ! j = c"
proof -
  from assms obtain j where "j < length (take n xs)" "take n xs ! j = c"
    unfolding in_set_conv_nth by blast
  then show ?thesis by (intro exI [of _ j]) simp
qed

lemma nth_in_take: "i < n \<Longrightarrow> i < length xs \<Longrightarrow> xs ! i \<in> set (take n xs)"
  using in_set_conv_nth by fastforce

lemma gap_not_latest:
  assumes "distinct commits" "distinct sequence" "u \<notin> set commits" "c \<in> set commits"
    "newer sequence u c"
  shows "\<not> latestAndConsecutive commits (take (length commits) sequence)"
proof (cases "set commits \<subseteq> set (take (length commits) sequence)")
  case False
  then obtain x where "x \<in> set commits" "x \<notin> set (take (length commits) sequence)"
    by auto
  then show ?thesis by (rule absent_not_latest)
next
  case True
  let ?n = "length commits"
  have "card (set commits) = ?n" using assms(1) by (simp add: distinct_card)
  then have "card (set (take ?n sequence)) \<le> card (set commits)"
    using take_bound [of ?n sequence] by simp
  then have eq: "set commits = set (take ?n sequence)"
    using True by (intro card_seteq) simp_all
  have cin: "c \<in> set (take ?n sequence)" using True assms(4) by blast
  then obtain j where j: "j < ?n" "j < length sequence" "sequence ! j = c"
    using in_take_nth by metis
  have ic: "indexOf sequence c = int j" using indexOf_index [OF assms(2) j(2)] j(3) by simp
  have u0: "0 \<le> indexOf sequence u" and uj: "indexOf sequence u < int j"
    using assms(5) ic by (simp_all add: newer_def)
  then have uin: "u \<in> set sequence" using indexOf_neg_iff [of sequence u] by auto
  define i where "i = nat (indexOf sequence u)"
  have "i < j" using u0 uj by (simp add: i_def)
  moreover have "sequence ! i = u" using indexOf_nth [OF uin] by (simp add: i_def)
  ultimately have "u \<in> set (take ?n sequence)"
    using j nth_in_take [of i ?n sequence] by simp
  with eq assms(3) show ?thesis by simp
qed

section \<open>Lemmas about calls\<close>

lemma call_ok:
  "length (trace s) \<notin> set (faults s) \<Longrightarrow> call op run s = run (s\<lparr>trace := trace s @ [op]\<rparr>)"
  by (simp add: call_def)

lemma git_log_ok:
  assumes "tip s = Some t" "length (trace s) \<notin> set (faults s)"
  shows "git_log n s =
     (Inr (case n of None \<Rightarrow> history t | Some k \<Rightarrow> take k (history t)),
      s\<lparr>trace := trace s @ [OpLog n]\<rparr>)"
  using assms by (simp add: git_log_def call_ok tip_def)

lemma classifier_ok:
  assumes "tip s = Some t" "length (trace s) \<notin> set (faults s)"
  shows "areCommitsLatestAndConsecutive commits s =
     (Inr (latestAndConsecutive commits (take (length commits) (history t))),
      s\<lparr>trace := trace s @ [OpLog (Some (length commits))]\<rparr>)"
  by (simp add: areCommitsLatestAndConsecutive_def await_def git_log_ok [OF assms] ret_def)

lemma gap_newer:
  assumes "gap sequence commits u"
  shows "u \<notin> set commits \<and> (\<exists>c \<in> set commits. newer sequence u c)"
proof -
  from assms have u: "u \<notin> set commits"
    and d: "between sequence commits u \<or> newerThanAll sequence commits u"
    by (simp_all add: gap_def)
  from d have "\<exists>c \<in> set commits. newer sequence u c"
  proof
    assume "between sequence commits u"
    then show ?thesis by (auto simp: between_def)
  next
    assume "newerThanAll sequence commits u"
    then have "commits \<noteq> []" "\<forall>c \<in> set commits. newer sequence u c"
      by (simp_all add: newerThanAll_def list_all_iff)
    then show ?thesis by (cases commits) auto
  qed
  with u show ?thesis by simp
qed

section \<open>Lemmas about the calls of a run\<close>

lemma emitsI:
  assumes "\<And>s. \<exists>calls. trace (snd (f s)) = trace s @ calls \<and> list_all P calls"
  shows "emits P f"
  using assms by (simp add: emits_def)

lemma emitsD:
  assumes "emits P f"
  obtains calls where "trace (snd (f s)) = trace s @ calls" "list_all P calls"
  using assms unfolding emits_def by blast

lemma emits_ret [intro!]: "emits P (ret x)"
  by (simp add: emits_def ret_def)

lemma emits_throw [intro!]: "emits P (throw e)"
  by (simp add: emits_def throw_def)

lemma emits_say [intro!]: "emits P (say l)"
  by (simp add: emits_def say_def)

lemma emits_now [intro!]: "emits P now"
  by (simp add: emits_def now_def)

lemma emits_await [intro!]:
  assumes "emits P f" "\<And>x. emits P (g x)"
  shows "emits P (await f g)"
proof (rule emitsI)
  fix s
  obtain c1 where c1: "trace (snd (f s)) = trace s @ c1" "list_all P c1"
    using assms(1) by (rule emitsD)
  show "\<exists>calls. trace (snd (await f g s)) = trace s @ calls \<and> list_all P calls"
  proof (cases "f s")
    case (Pair r s1)
    show ?thesis
    proof (cases r)
      case (Inl e)
      with Pair c1 show ?thesis by (auto simp: await_def)
    next
      case (Inr x)
      obtain c2 where c2: "trace (snd (g x s1)) = trace s1 @ c2" "list_all P c2"
        using assms(2) by (rule emitsD)
      with Pair Inr c1 show ?thesis by (auto simp: await_def)
    qed
  qed
qed

lemma emits_tryCatch [intro!]:
  assumes "emits P f" "\<And>e. emits P (h e)"
  shows "emits P (tryCatch f h)"
proof (rule emitsI)
  fix s
  obtain c1 where c1: "trace (snd (f s)) = trace s @ c1" "list_all P c1"
    using assms(1) by (rule emitsD)
  show "\<exists>calls. trace (snd (tryCatch f h s)) = trace s @ calls \<and> list_all P calls"
  proof (cases "f s")
    case (Pair r s1)
    show ?thesis
    proof (cases r)
      case (Inr x)
      with Pair c1 show ?thesis by (auto simp: tryCatch_def)
    next
      case (Inl e)
      obtain c2 where c2: "trace (snd (h e s1)) = trace s1 @ c2" "list_all P c2"
        using assms(2) by (rule emitsD)
      with Pair Inl c1 show ?thesis by (auto simp: tryCatch_def)
    qed
  qed
qed

lemma emits_suppress [intro!]: "emits P f \<Longrightarrow> emits P (suppress f)"
  by (simp add: emits_def suppress_def)

lemma emits_forEach [intro!]: "(\<And>x. emits P (f x)) \<Longrightarrow> emits P (forEach xs f)"
  by (induction xs) auto

lemma emits_if [intro!]: "emits P f \<Longrightarrow> emits P g \<Longrightarrow> emits P (if b then f else g)"
  by simp

lemma emits_call:
  assumes "P op" "\<And>s. trace (snd (run s)) = trace s"
  shows "emits P (call op run)"
proof (rule emitsI)
  fix s
  have "trace (snd (call op run s)) = trace s @ [op]"
    using assms(2) by (simp add: call_def Let_def)
  with assms(1) show "\<exists>calls. trace (snd (call op run s)) = trace s @ calls \<and> list_all P calls"
    by simp
qed

lemma emits_git_log [intro!]: "P (OpLog n) \<Longrightarrow> emits P (git_log n)"
  unfolding git_log_def by (rule emits_call) (auto split: option.splits)

lemma emits_git_status [intro!]: "P OpStatus \<Longrightarrow> emits P git_status"
  unfolding git_status_def by (rule emits_call) auto

lemma emits_git_branch [intro!]: "P OpBranch \<Longrightarrow> emits P git_branch"
  unfolding git_branch_def by (rule emits_call) auto

lemma emits_git_checkout_new [intro!]: "P (OpCheckoutNew b) \<Longrightarrow> emits P (git_checkout_new b)"
  unfolding git_checkout_new_def by (rule emits_call) (auto split: option.splits)

lemma emits_git_checkout [intro!]: "P (OpCheckout b) \<Longrightarrow> emits P (git_checkout b)"
  unfolding git_checkout_def by (rule emits_call) (auto split: option.splits)

lemma emits_git_reset [intro!]: "P (OpReset m r) \<Longrightarrow> emits P (git_reset m r)"
  unfolding git_reset_def by (rule emits_call) (auto split: sum.splits resetMode.splits)

lemma emits_git_cherry_pick [intro!]: "P (OpCherryPick c) \<Longrightarrow> emits P (git_cherry_pick c)"
  unfolding git_cherry_pick_def by (rule emits_call) (auto split: option.splits)

lemma emits_git_commit [intro!]: "P (OpCommit m) \<Longrightarrow> emits P (git_commit m)"
  unfolding git_commit_def by (rule emits_call) auto

lemma emits_git_revparse_head [intro!]: "P OpRevParseHead \<Longrightarrow> emits P git_revparse_head"
  unfolding git_revparse_head_def by (rule emits_call) (auto split: option.splits)

lemma emits_git_branch_delete [intro!]: "P (OpBranchDelete b) \<Longrightarrow> emits P (git_branch_delete b)"
  unfolding git_branch_delete_def by (rule emits_call) auto

lemma emits_git_stash_save [intro!]: "P (OpStashSave l) \<Longrightarrow> emits P (git_stash_save l)"
  unfolding git_stash_save_def by (rule emits_call) auto

lemma emits_git_stash_pop [intro!]: "P OpStashPop \<Longrightarrow> emits P git_stash_pop"
  unfolding git_stash_pop_def by (rule emits_call) (auto split: list.splits)

lemma emits_squashLatestCommits: "emits historyCall (squashLatestCommits commits msg)"
  unfolding squashLatestCommits_def Let_def by (intro emits_await emits_git_reset emits_git_commit) simp_all

lemma emits_reconstructHistory: "emits historyCall (reconstructHistory commits msg)"
  unfolding reconstructHistory_def by (auto split: option.splits)

lemma emits_applyToMainBranch: "emits historyCall (applyToMainBranch cur oldest new later)"
  unfolding applyToMainBranch_def by auto

lemma emits_tryBlock: "emits historyCall (tryBlock cur tmp later commits msg)"
  unfolding tryBlock_def
  by (intro emits_await emits_reconstructHistory) (auto intro: emits_applyToMainBranch)

lemma emits_catchBlock: "emits historyCall (catchBlock cur tmp e)"
  unfolding catchBlock_def by auto

lemma emits_squashNonConsecutiveCommits:
  "emits historyCall (squashNonConsecutiveCommits commits msg)"
  unfolding squashNonConsecutiveCommits_def Let_def
  by (intro emits_await emits_tryCatch emits_tryBlock emits_catchBlock) auto

lemma emits_classifier: "emits historyCall (areCommitsLatestAndConsecutive commits)"
  unfolding areCommitsLatestAndConsecutive_def by auto

lemma emits_rewrite: "emits historyCall (rewrite commits msg)"
  unfolding rewrite_def
  by (intro emits_await emits_classifier emits_if emits_squashLatestCommits
        emits_squashNonConsecutiveCommits emits_say)

section \<open>Runs in which no call fails\<close>

text \<open>Runs in which no call fails for a reason outside the model.\<close>

lemma call_run: "faults s = [] \<Longrightarrow> call op run s = run (s\<lparr>trace := trace s @ [op]\<rparr>)"
  by (simp add: call_def)

lemma tip_update [simp]:
  "tip (s\<lparr>trace := x\<rparr>) = tip s"
  "tip (s\<lparr>console := y\<rparr>) = tip s"
  "tip (s\<lparr>staged := z\<rparr>) = tip s"
  "tip (s\<lparr>modified := z\<rparr>) = tip s"
  "tip (s\<lparr>untracked := z\<rparr>) = tip s"
  "tip (s\<lparr>stashes := u\<rparr>) = tip s"
  by (simp_all add: tip_def)

lemma unstaged_update [simp]:
  "unstaged (s\<lparr>trace := x\<rparr>) = unstaged s"
  "unstaged (s\<lparr>console := y\<rparr>) = unstaged s"
  "unstaged (s\<lparr>branches := b\<rparr>) = unstaged s"
  "unstaged (s\<lparr>current := c\<rparr>) = unstaged s"
  "unstaged (s\<lparr>staged := z\<rparr>) = unstaged s"
  "unstaged (s\<lparr>stashes := u\<rparr>) = unstaged s"
  "unstaged (s\<lparr>faults := f\<rparr>) = unstaged s"
  "unstaged (s\<lparr>modified := m\<rparr>) = m @ untracked s"
  by (simp_all add: unstaged_def)

lemma git_status_run:
  "faults s = [] \<Longrightarrow>
   git_status s = (Inr (staged s @ unstaged s), s\<lparr>trace := trace s @ [OpStatus]\<rparr>)"
  by (simp add: git_status_def call_run)

lemma git_log_run:
  "faults s = [] \<Longrightarrow> tip s = Some t \<Longrightarrow>
   git_log n s = (Inr (case n of None \<Rightarrow> history t | Some k \<Rightarrow> take k (history t)),
                  s\<lparr>trace := trace s @ [OpLog n]\<rparr>)"
  by (simp add: git_log_def call_run)

lemma git_branch_run:
  "faults s = [] \<Longrightarrow> git_branch s = (Inr (current s), s\<lparr>trace := trace s @ [OpBranch]\<rparr>)"
  by (simp add: git_branch_def call_run)

lemma git_checkout_new_run:
  "faults s = [] \<Longrightarrow> tip s = Some t \<Longrightarrow> name \<notin> fst ` set (branches s) \<Longrightarrow>
   git_checkout_new name s =
     (Inr (), s\<lparr>trace := trace s @ [OpCheckoutNew name],
                branches := (name, t) # branches s, current := name\<rparr>)"
  by (simp add: git_checkout_new_def call_run)

lemma git_checkout_run:
  "faults s = [] \<Longrightarrow> map_of (branches s) name = Some t \<Longrightarrow>
   git_checkout name s = (Inr (), s\<lparr>trace := trace s @ [OpCheckout name], current := name\<rparr>)"
  by (simp add: git_checkout_def call_run)

lemma git_reset_hard_run:
  "faults s = [] \<Longrightarrow> parent c = Some p \<Longrightarrow>
   git_reset Hard (ParentOf (Some c)) s =
     (Inr (), s\<lparr>trace := trace s @ [OpReset Hard (ParentOf (Some c))],
                branches := AList.update (current s) p (branches s),
                staged := [], modified := []\<rparr>)"
  by (simp add: git_reset_def call_run resolve_def)

lemma git_reset_soft_run:
  "faults s = [] \<Longrightarrow> parent c = Some p \<Longrightarrow>
   git_reset Soft (ParentOf (Some c)) s =
     (Inr (), s\<lparr>trace := trace s @ [OpReset Soft (ParentOf (Some c))],
                branches := AList.update (current s) p (branches s),
                staged := leftBehind (tip s) p @ staged s\<rparr>)"
  by (simp add: git_reset_def call_run resolve_def)

lemma git_cherry_pick_run:
  "faults s = [] \<Longrightarrow> tip s = Some t \<Longrightarrow>
   git_cherry_pick c s =
     (Inr (), s\<lparr>trace := trace s @ [OpCherryPick c],
                branches := AList.update (current s) (Commit (Some t) (message c) (changes c))
                              (branches s)\<rparr>)"
  by (simp add: git_cherry_pick_def call_run)

lemma git_commit_run:
  "faults s = [] \<Longrightarrow> staged s \<noteq> [] \<Longrightarrow>
   git_commit msg s =
     (Inr (), s\<lparr>trace := trace s @ [OpCommit msg],
                branches := AList.update (current s) (Commit (tip s) msg (staged s)) (branches s),
                staged := []\<rparr>)"
  by (simp add: git_commit_def call_run)

lemma git_revparse_head_run:
  "faults s = [] \<Longrightarrow> tip s = Some t \<Longrightarrow>
   git_revparse_head s = (Inr t, s\<lparr>trace := trace s @ [OpRevParseHead]\<rparr>)"
  by (simp add: git_revparse_head_def call_run)

lemma git_branch_delete_run:
  "faults s = [] \<Longrightarrow> name \<noteq> current s \<Longrightarrow> name \<in> fst ` set (branches s) \<Longrightarrow>
   git_branch_delete name s =
     (Inr (), s\<lparr>trace := trace s @ [OpBranchDelete name],
                branches := AList.delete name (branches s)\<rparr>)"
  by (simp add: git_branch_delete_def call_run)

lemma git_stash_save_run:
  "faults s = [] \<Longrightarrow> staged s @ modified s \<noteq> [] \<Longrightarrow>
   git_stash_save label s =
     (Inr (), s\<lparr>trace := trace s @ [OpStashSave label],
                stashes := (label, staged s, modified s) # stashes s,
                staged := [], modified := []\<rparr>)"
  by (auto simp: git_stash_save_def call_run)

lemma git_stash_pop_run:
  "faults s = [] \<Longrightarrow> stashes s = (label, st, un) # rest \<Longrightarrow>
   git_stash_pop s =
     (Inr (), s\<lparr>trace := trace s @ [OpStashPop], stashes := rest,
                modified := st @ un @ modified s\<rparr>)"
  by (simp add: git_stash_pop_def call_run)

lemma history_hd: "\<exists>rest. history c = c # rest"
  by (induction c rule: history.induct) auto

lemma hd_history [simp]: "hd (history c) = c"
  using history_hd [of c] by auto

lemma replayed_size: "x \<in> set (replayed b cs) \<Longrightarrow> size b < size x"
proof (induction cs arbitrary: b)
  case Nil then show ?case by simp
next
  case (Cons c cs)
  let ?n = "Commit (Some b) (message c) (changes c)"
  from Cons.prems have "x = ?n \<or> x \<in> set (replayed ?n cs)" by simp
  then show ?case
  proof
    assume "x = ?n" then show ?thesis by simp
  next
    assume "x \<in> set (replayed ?n cs)"
    from Cons.IH [OF this] show ?thesis by simp
  qed
qed

lemma history_replay: "history (replay b cs) = rev (replayed b cs) @ history b"
  by (induction cs arbitrary: b) auto

lemma replayed_message [simp]: "map message (replayed b cs) = map message cs"
  by (induction cs arbitrary: b) auto

lemma replayed_changes [simp]: "map changes (replayed b cs) = map changes cs"
  by (induction cs arbitrary: b) auto

lemma length_replayed [simp]: "length (replayed b cs) = length cs"
  by (induction cs arbitrary: b) auto

lemma leftBehind_replay: "leftBehind (Some (replay p cs)) p = concat (map changes cs)"
proof -
  obtain rest where h: "history p = p # rest" using history_hd by blast
  have "\<forall>x \<in> set (rev (replayed p cs)). x \<noteq> p" using replayed_size [of _ p cs] by auto
  then have "takeWhile (\<lambda>c. c \<noteq> p) (rev (replayed p cs) @ p # rest) = rev (replayed p cs)"
    by (simp add: takeWhile_tail takeWhile_eq_all_conv)
  then show ?thesis by (simp add: leftBehind_def history_replay h rev_map [symmetric])
qed

lemma forEach_cherry_pick_run:
  assumes "faults s = []" "tip s = Some t"
  shows "forEach cs git_cherry_pick s =
     (Inr (), s\<lparr>trace := trace s @ map OpCherryPick cs,
                branches := AList.update (current s) (replay t cs) (branches s)\<rparr>)"
  using assms
proof (induction cs arbitrary: s t)
  case Nil
  then have "AList.update (current s) t (branches s) = branches s"
    by (simp add: tip_def update_triv)
  then show ?case by (simp add: ret_def)
next
  case (Cons c cs)
  let ?n = "Commit (Some t) (message c) (changes c)"
  let ?s1 = "s\<lparr>trace := trace s @ [OpCherryPick c],
                branches := AList.update (current s) ?n (branches s)\<rparr>"
  have 1: "git_cherry_pick c s = (Inr (), ?s1)" using Cons.prems by (rule git_cherry_pick_run)
  have "faults ?s1 = []" using Cons.prems by simp
  moreover have "tip ?s1 = Some ?n" by (simp add: tip_def update_conv')
  ultimately have "forEach cs git_cherry_pick ?s1 =
     (Inr (), ?s1\<lparr>trace := trace ?s1 @ map OpCherryPick cs,
                branches := AList.update (current ?s1) (replay ?n cs) (branches ?s1)\<rparr>)"
    by (rule Cons.IH)
  with 1 show ?case by (simp add: await_def)
qed

lemma squashLatestCommits_run:
  assumes "faults s = []" "lastOf commits = Some oldest" "parent oldest = Some p"
      and "leftBehind (tip s) p @ staged s \<noteq> []"
  shows "squashLatestCommits commits msg s =
     (Inr (), s\<lparr>trace := trace s @ [OpReset Soft (ParentOf (Some oldest)), OpCommit msg],
                branches := AList.update (current s)
                  (Commit (Some p) msg (leftBehind (tip s) p @ staged s)) (branches s),
                staged := []\<rparr>)"
  using assms
  by (simp add: squashLatestCommits_def await_def git_reset_soft_run git_commit_run
        tip_def update_conv')

lemma reconstructHistory_run:
  assumes nf: "faults s = []" and t: "tip s = Some t"
      and oldest: "lastOf commits = Some oldest" and par: "parent oldest = Some p"
      and ch: "concat (map changes (rev commits)) \<noteq> []"
  shows "reconstructHistory commits msg s =
     (Inr (oldest, squashed p msg commits),
      s\<lparr>trace := trace s @ [OpReset Hard (ParentOf (Some oldest))]
                 @ map OpCherryPick (rev commits)
                 @ [OpReset Soft (ParentOf (Some oldest)), OpCommit msg, OpRevParseHead],
        branches := AList.update (current s) (squashed p msg commits) (branches s),
        staged := [], modified := []\<rparr>)"
proof -
  let ?r = "ParentOf (Some oldest)"
  let ?s1 = "s\<lparr>trace := trace s @ [OpReset Hard ?r],
                branches := AList.update (current s) p (branches s),
                staged := [], modified := []\<rparr>"
  have 1: "git_reset Hard ?r s = (Inr (), ?s1)" using nf par by (rule git_reset_hard_run)
  have nf1: "faults ?s1 = []" using nf by simp
  have t1: "tip ?s1 = Some p" by (simp add: tip_def update_conv')
  let ?s2 = "?s1\<lparr>trace := trace ?s1 @ map OpCherryPick (rev commits),
                branches := AList.update (current ?s1) (replay p (rev commits)) (branches ?s1)\<rparr>"
  have 2: "forEach (rev commits) git_cherry_pick ?s1 = (Inr (), ?s2)"
    using nf1 t1 by (rule forEach_cherry_pick_run)
  have nf2: "faults ?s2 = []" using nf by simp
  have t2: "tip ?s2 = Some (replay p (rev commits))" by (simp add: tip_def update_conv')
  let ?s3 = "?s2\<lparr>trace := trace ?s2 @ [OpReset Soft ?r],
                branches := AList.update (current ?s2) p (branches ?s2),
                staged := leftBehind (tip ?s2) p @ staged ?s2\<rparr>"
  have 3: "git_reset Soft ?r ?s2 = (Inr (), ?s3)" using nf2 par by (rule git_reset_soft_run)
  have nf3: "faults ?s3 = []" using nf by simp
  have t3: "tip ?s3 = Some p" by (simp add: tip_def update_conv')
  have st3: "staged ?s3 = concat (map changes (rev commits))"
    using t2 by (simp add: leftBehind_replay)
  let ?s4 = "?s3\<lparr>trace := trace ?s3 @ [OpCommit msg],
                branches := AList.update (current ?s3) (Commit (tip ?s3) msg (staged ?s3)) (branches ?s3),
                staged := []\<rparr>"
  have 4: "git_commit msg ?s3 = (Inr (), ?s4)"
    using nf3 by (rule git_commit_run) (simp only: st3 ch not_False_eq_True)
  have nf4: "faults ?s4 = []" using nf by simp
  have t4: "tip ?s4 = Some (squashed p msg commits)"
    unfolding t3 st3 by (simp add: tip_def update_conv' squashed_def)
  have 5: "git_revparse_head ?s4 =
      (Inr (squashed p msg commits), ?s4\<lparr>trace := trace ?s4 @ [OpRevParseHead]\<rparr>)"
    using nf4 t4 by (rule git_revparse_head_run)
  have b4: "branches ?s4 = AList.update (current s) (squashed p msg commits) (branches s)"
    unfolding t3 st3 by (simp add: squashed_def)
  have "reconstructHistory commits msg s =
      (Inr (oldest, squashed p msg commits), ?s4\<lparr>trace := trace ?s4 @ [OpRevParseHead]\<rparr>)"
    unfolding reconstructHistory_def oldest
    by (simp only: option.case await_def 1 2 3 4 5 split_conv sum.case ret_def)
  also have "?s4\<lparr>trace := trace ?s4 @ [OpRevParseHead]\<rparr> =
      s\<lparr>trace := trace s @ [OpReset Hard (ParentOf (Some oldest))]
                 @ map OpCherryPick (rev commits)
                 @ [OpReset Soft (ParentOf (Some oldest)), OpCommit msg, OpRevParseHead],
        branches := AList.update (current s) (squashed p msg commits) (branches s),
        staged := [], modified := []\<rparr>"
    using b4 by simp
  finally show ?thesis .
qed

lemma applyToMainBranch_run:
  assumes nf: "faults s = []" and cur: "map_of (branches s) cur = Some t"
      and par: "parent oldest = Some p" and new: "parent new = Some p"
  shows "applyToMainBranch cur oldest new later s =
     (Inr (),
      s\<lparr>trace := trace s @ [OpCheckout cur, OpReset Hard (ParentOf (Some oldest)),
                              OpCherryPick new] @ map OpCherryPick (rev later),
        branches := AList.update cur (replay new (rev later)) (branches s),
        current := cur, staged := [], modified := []\<rparr>)"
proof -
  let ?r = "ParentOf (Some oldest)"
  let ?s1 = "s\<lparr>trace := trace s @ [OpCheckout cur], current := cur\<rparr>"
  have 1: "git_checkout cur s = (Inr (), ?s1)" using nf cur by (rule git_checkout_run)
  have nf1: "faults ?s1 = []" using nf by simp
  let ?s2 = "?s1\<lparr>trace := trace ?s1 @ [OpReset Hard ?r],
                branches := AList.update (current ?s1) p (branches ?s1),
                staged := [], modified := []\<rparr>"
  have 2: "git_reset Hard ?r ?s1 = (Inr (), ?s2)" using nf1 par by (rule git_reset_hard_run)
  have nf2: "faults ?s2 = []" using nf by simp
  have t2: "tip ?s2 = Some p" by (simp add: tip_def update_conv')
  have n: "Commit (Some p) (message new) (changes new) = new" using new by (cases new) simp
  let ?s3 = "?s2\<lparr>trace := trace ?s2 @ [OpCherryPick new],
                branches := AList.update (current ?s2) new (branches ?s2)\<rparr>"
  have 3: "git_cherry_pick new ?s2 = (Inr (), ?s3)"
    using git_cherry_pick_run [OF nf2 t2, of new] by (simp only: n)
  have nf3: "faults ?s3 = []" using nf by simp
  have t3: "tip ?s3 = Some new" by (simp add: tip_def update_conv')
  let ?s4 = "?s3\<lparr>trace := trace ?s3 @ map OpCherryPick (rev later),
                branches := AList.update (current ?s3) (replay new (rev later)) (branches ?s3)\<rparr>"
  have 4: "forEach (rev later) git_cherry_pick ?s3 = (Inr (), ?s4)"
    using nf3 t3 by (rule forEach_cherry_pick_run)
  have 40: "(if later \<noteq> [] then forEach (rev later) git_cherry_pick else ret ()) ?s3
      = (Inr (), ?s4)"
  proof (cases "later = []")
    case False then show ?thesis using 4 by simp
  next
    case True
    then have "forEach (rev later) git_cherry_pick = ret ()" by simp
    with 4 True show ?thesis by simp
  qed
  have "applyToMainBranch cur oldest new later s = (Inr (), ?s4)"
    unfolding applyToMainBranch_def
    by (simp only: await_def 1 2 3 40 split_conv sum.case)
  also have "?s4 =
      s\<lparr>trace := trace s @ [OpCheckout cur, OpReset Hard (ParentOf (Some oldest)),
                              OpCherryPick new] @ map OpCherryPick (rev later),
        branches := AList.update cur (replay new (rev later)) (branches s),
        current := cur, staged := [], modified := []\<rparr>"
    by simp
  finally show ?thesis .
qed

lemma collectLater_takeWhile:
  "collectLater x cs = takeWhile (\<lambda>c. Some c \<noteq> x) cs"
  by (induction cs) auto

lemma squashNonConsecutiveCommits_run:
  assumes nf: "faults s = []" and t: "tip s = Some t"
      and fresh: "tempName (clock s) \<notin> fst ` set (branches s)"
      and oldest: "lastOf commits = Some oldest" and par: "parent oldest = Some p"
      and ch: "concat (map changes (rev commits)) \<noteq> []"
  shows "squashNonConsecutiveCommits commits msg s =
     (Inr (),
      s\<lparr>trace := trace s @ generalCalls (current s) (tempName (clock s)) oldest
                   (squashed p msg commits) commits msg
                   (collectLater (firstOf commits) (history t)),
        branches := AList.update (current s)
                      (replay (squashed p msg commits)
                         (rev (collectLater (firstOf commits) (history t))))
                      (branches s),
        staged := [], modified := []\<rparr>)"
proof -
  let ?cur = "current s" and ?tmp = "tempName (clock s)"
  let ?later = "collectLater (firstOf commits) (history t)"
  let ?new = "squashed p msg commits"
  have curB: "map_of (branches s) ?cur = Some t" using t by (simp add: tip_def)
  then have "?cur \<in> fst ` set (branches s)" by (metis map_of_eq_None_iff option.distinct(1))
  with fresh have neq: "?tmp \<noteq> ?cur" by metis
  let ?s1 = "s\<lparr>trace := trace s @ [OpBranch]\<rparr>"
  have 1: "git_branch s = (Inr ?cur, ?s1)" using nf by (rule git_branch_run)
  have 10: "now ?s1 = (Inr (clock s), ?s1)" by (simp add: now_def)
  have nf1: "faults ?s1 = []" using nf by simp
  have t1: "tip ?s1 = Some t" using t by simp
  let ?s2 = "?s1\<lparr>trace := trace ?s1 @ [OpLog None]\<rparr>"
  have 2: "git_log None ?s1 = (Inr (history t), ?s2)"
    using git_log_run [OF nf1 t1, of None] by simp
  have nf2: "faults ?s2 = []" using nf by simp
  have t2: "tip ?s2 = Some t" using t by simp
  have f2: "?tmp \<notin> fst ` set (branches ?s2)" using fresh by simp
  let ?s3 = "?s2\<lparr>trace := trace ?s2 @ [OpCheckoutNew ?tmp],
                branches := (?tmp, t) # branches ?s2, current := ?tmp\<rparr>"
  have 3: "git_checkout_new ?tmp ?s2 = (Inr (), ?s3)"
    using nf2 t2 f2 by (rule git_checkout_new_run)
  have nf3: "faults ?s3 = []" using nf by simp
  have t3: "tip ?s3 = Some t" by (simp add: tip_def)
  let ?s4 = "?s3\<lparr>trace := trace ?s3 @ [OpReset Hard (ParentOf (Some oldest))]
                 @ map OpCherryPick (rev commits)
                 @ [OpReset Soft (ParentOf (Some oldest)), OpCommit msg, OpRevParseHead],
        branches := AList.update (current ?s3) ?new (branches ?s3),
        staged := [], modified := []\<rparr>"
  have 4: "reconstructHistory commits msg ?s3 = (Inr (oldest, ?new), ?s4)"
    using nf3 t3 oldest par ch by (rule reconstructHistory_run)
  have nf4: "faults ?s4 = []" using nf by simp
  have b4: "branches ?s4 = (?tmp, ?new) # branches s" by simp
  have cur4: "map_of (branches ?s4) ?cur = Some t" using neq curB by (simp add: b4)
  have pn: "parent ?new = Some p" by (simp add: squashed_def)
  let ?s5 = "?s4\<lparr>trace := trace ?s4 @ [OpCheckout ?cur, OpReset Hard (ParentOf (Some oldest)),
                              OpCherryPick ?new] @ map OpCherryPick (rev ?later),
        branches := AList.update ?cur (replay ?new (rev ?later)) (branches ?s4),
        current := ?cur, staged := [], modified := []\<rparr>"
  have 5: "applyToMainBranch ?cur oldest ?new ?later ?s4 = (Inr (), ?s5)"
    using nf4 cur4 par pn by (rule applyToMainBranch_run)
  have nf5: "faults ?s5 = []" using nf by simp
  have b5: "branches ?s5 = (?tmp, ?new) # AList.update ?cur (replay ?new (rev ?later)) (branches s)"
    using neq by (simp add: b4)
  have 6: "git_branch_delete ?tmp ?s5 =
      (Inr (), ?s5\<lparr>trace := trace ?s5 @ [OpBranchDelete ?tmp],
                 branches := AList.delete ?tmp (branches ?s5)\<rparr>)"
    using nf5 neq by (intro git_branch_delete_run) (simp_all add: b5)
  have d: "AList.delete ?tmp (branches ?s5) =
      AList.update ?cur (replay ?new (rev ?later)) (branches s)"
    using neq fresh by (simp add: b5 delete_update [OF neq [symmetric]])
  let ?s6 = "?s5\<lparr>trace := trace ?s5 @ [OpBranchDelete ?tmp],
                 branches := AList.delete ?tmp (branches ?s5)\<rparr>"
  have tb: "tryBlock ?cur ?tmp ?later commits msg ?s3 = (Inr (), ?s6)"
    unfolding tryBlock_def by (simp only: await_def 4 5 6 split_conv sum.case)
  have "squashNonConsecutiveCommits commits msg s = (Inr (), ?s6)"
    unfolding squashNonConsecutiveCommits_def Let_def
    by (simp only: await_def tryCatch_def 1 10 2 3 tb split_conv sum.case)
  also have "?s6 = s\<lparr>trace := trace s @ generalCalls ?cur ?tmp oldest ?new commits msg ?later,
        branches := AList.update ?cur (replay ?new (rev ?later)) (branches s),
        staged := [], modified := []\<rparr>"
    unfolding d by (simp add: generalCalls_def)
  finally show ?thesis .
qed

lemma classifier_run:
  assumes "faults s = []" "tip s = Some t"
  shows "areCommitsLatestAndConsecutive commits s =
     (Inr (latestAndConsecutive commits (take (length commits) (history t))),
      s\<lparr>trace := trace s @ [OpLog (Some (length commits))]\<rparr>)"
  using assms by (intro classifier_ok) simp_all

lemma rewrite_fast_run:
  assumes nf: "faults s = []" and t: "tip s = Some t"
      and latest: "latestAndConsecutive commits (take (length commits) (history t))"
      and oldest: "lastOf commits = Some oldest" and par: "parent oldest = Some p"
      and lb: "leftBehind (Some t) p @ staged s \<noteq> []"
  shows "rewrite commits msg s =
     (Inr (), s\<lparr>trace := trace s @ [OpLog (Some (length commits)),
                              OpReset Soft (ParentOf (Some oldest)), OpCommit msg],
                branches := AList.update (current s)
                  (Commit (Some p) msg (leftBehind (Some t) p @ staged s)) (branches s),
                staged := []\<rparr>)"
proof -
  let ?s1 = "s\<lparr>trace := trace s @ [OpLog (Some (length commits))]\<rparr>"
  have 1: "areCommitsLatestAndConsecutive commits s = (Inr True, ?s1)"
    using classifier_run [OF nf t, of commits] latest by simp
  have nf1: "faults ?s1 = []" using nf by simp
  have 2: "squashLatestCommits commits msg ?s1 =
     (Inr (), ?s1\<lparr>trace := trace ?s1 @ [OpReset Soft (ParentOf (Some oldest)), OpCommit msg],
                branches := AList.update (current ?s1)
                  (Commit (Some p) msg (leftBehind (tip ?s1) p @ staged ?s1)) (branches ?s1),
                staged := []\<rparr>)"
    using nf1 oldest par by (rule squashLatestCommits_run) (use t lb in simp)
  have "rewrite commits msg s = squashLatestCommits commits msg ?s1"
    unfolding rewrite_def by (simp only: await_def 1 split_conv sum.case if_True)
  with 2 t show ?thesis by simp
qed

lemma stashIfDirty_run:
  assumes "faults s = []" and "staged s @ modified s = [] \<Longrightarrow> untracked s = []"
  shows "stashIfDirty (staged s @ unstaged s) s =
     (Inr (),
      if staged s @ unstaged s = [] then s
      else s\<lparr>trace := trace s @ [OpStashSave stashLabel],
             console := console s @ [StashWarning],
             stashes := (stashLabel, staged s, modified s) # stashes s,
             staged := [], modified := []\<rparr>)"
proof (cases "staged s @ modified s = []")
  case True
  with assms(2) have "staged s @ unstaged s = []" by (simp add: unstaged_def)
  then show ?thesis by (simp add: stashIfDirty_def ret_def)
next
  case False
  then have "staged s @ unstaged s \<noteq> []" by (auto simp: unstaged_def)
  moreover have "faults (s\<lparr>console := console s @ [StashWarning]\<rparr>) = []"
    using assms(1) by simp
  ultimately show ?thesis using False
    by (auto simp: stashIfDirty_def await_def say_def git_stash_save_run ret_def)
qed

lemma stashIfDirty_ok:
  assumes "faults s = []"
  shows "\<exists>s2. stashIfDirty files s = (Inr (), s2) \<and> faults s2 = [] \<and> branches s2 = branches s
           \<and> current s2 = current s \<and> clock s2 = clock s
           \<and> trace s2 = trace s @ (if files \<noteq> [] then [OpStashSave stashLabel] else [])"
  using assms
  by (auto simp: stashIfDirty_def await_def say_def git_stash_save_def call_def ret_def Let_def)

lemma squashCommits_run:
  assumes nf: "faults s = []"
      and tracked: "staged s @ modified s = [] \<Longrightarrow> untracked s = []"
      and rw: "\<And>s2. faults s2 = [] \<Longrightarrow> staged s2 = [] \<Longrightarrow> modified s2 = [] \<Longrightarrow>
                 branches s2 = branches s \<Longrightarrow> current s2 = current s \<Longrightarrow> clock s2 = clock s \<Longrightarrow>
                 rewrite commits msg s2 =
                   (Inr (), s2\<lparr>trace := trace s2 @ calls, console := console s2 @ lines,
                              branches := B\<rparr>)"
  shows "squashCommits commits msg False s =
     (Returned,
      s\<lparr>trace := trace s @ OpStatus
                 # (if staged s @ unstaged s \<noteq> [] then [OpStashSave stashLabel] else [])
                 @ calls
                 @ (if staged s @ unstaged s \<noteq> [] then [OpStashPop] else []),
        console := console s
                 @ (if staged s @ unstaged s \<noteq> [] then [StashWarning] else [])
                 @ lines @ [Success],
        branches := B, staged := [], modified := staged s @ modified s\<rparr>)"
proof -
  let ?files = "staged s @ unstaged s"
  let ?s1 = "s\<lparr>trace := trace s @ [OpStatus]\<rparr>"
  have 1: "git_status s = (Inr ?files, ?s1)" using nf by (rule git_status_run)
  have nf1: "faults ?s1 = []" using nf by simp
  show ?thesis
  proof (cases "?files = []")
    case True
    then have clean: "staged s = []" "modified s = []" by (simp_all add: unstaged_def)
    have 2: "stashIfDirty ?files ?s1 = (Inr (), ?s1)"
      using True by (simp add: stashIfDirty_def ret_def)
    let ?s3 = "?s1\<lparr>trace := trace ?s1 @ calls, console := console ?s1 @ lines, branches := B\<rparr>"
    have 3: "rewrite commits msg ?s1 = (Inr (), ?s3)"
      using nf clean by (intro rw) simp_all
    have 4: "popIfDirty ?files ?s3 = (Inr (), ?s3)"
      using True by (simp add: popIfDirty_def ret_def)
    have 5: "say Success ?s3 = (Inr (), ?s3\<lparr>console := console ?s3 @ [Success]\<rparr>)"
      by (simp add: say_def)
    have "squashCommitsTry commits msg False s =
        (Inr (), ?s3\<lparr>console := console ?s3 @ [Success]\<rparr>)"
      unfolding squashCommitsTry_def
      by (simp only: await_def 1 2 3 4 5 split_conv sum.case if_False)
    moreover have "s\<lparr>staged := [], modified := []\<rparr> = s" using clean by (cases s) simp
    ultimately show ?thesis using True clean
      by (cases s) (simp add: squashCommits_def)
  next
    case False
    with tracked have dirty: "staged s @ modified s \<noteq> []" by (auto simp: unstaged_def)
    let ?s2 = "?s1\<lparr>trace := trace ?s1 @ [OpStashSave stashLabel],
             console := console ?s1 @ [StashWarning],
             stashes := (stashLabel, staged ?s1, modified ?s1) # stashes ?s1,
             staged := [], modified := []\<rparr>"
    have tr1: "staged ?s1 @ modified ?s1 = [] \<Longrightarrow> untracked ?s1 = []" using dirty by simp
    have 2: "stashIfDirty ?files ?s1 = (Inr (), ?s2)"
      using stashIfDirty_run [OF nf1 tr1] False by auto
    let ?s3 = "?s2\<lparr>trace := trace ?s2 @ calls, console := console ?s2 @ lines, branches := B\<rparr>"
    have 3: "rewrite commits msg ?s2 = (Inr (), ?s3)"
      using nf by (intro rw) simp_all
    have nf3: "faults ?s3 = []" using nf by simp
    have st3: "stashes ?s3 = (stashLabel, staged s, modified s) # stashes s" by simp
    let ?s4 = "?s3\<lparr>trace := trace ?s3 @ [OpStashPop], stashes := stashes s,
                modified := staged s @ modified s @ modified ?s3\<rparr>"
    have 4: "popIfDirty ?files ?s3 = (Inr (), ?s4)"
      using git_stash_pop_run [OF nf3 st3] False by (simp add: popIfDirty_def)
    have 5: "say Success ?s4 = (Inr (), ?s4\<lparr>console := console ?s4 @ [Success]\<rparr>)"
      by (simp add: say_def)
    have "squashCommitsTry commits msg False s =
        (Inr (), ?s4\<lparr>console := console ?s4 @ [Success]\<rparr>)"
      unfolding squashCommitsTry_def
      by (simp only: await_def 1 2 3 4 5 split_conv sum.case if_False)
    then show ?thesis using False by (simp add: squashCommits_def)
  qed
qed

lemma squashCommits_fast_run:
  assumes nf: "faults s = []" and t: "tip s = Some t"
      and tracked: "staged s @ modified s = [] \<Longrightarrow> untracked s = []"
      and latest: "latestAndConsecutive commits (take (length commits) (history t))"
      and oldest: "lastOf commits = Some oldest" and par: "parent oldest = Some p"
      and lb: "leftBehind (Some t) p \<noteq> []"
  shows "squashCommits commits msg False s =
     (Returned,
      s\<lparr>trace := trace s @ OpStatus
                 # (if staged s @ unstaged s \<noteq> [] then [OpStashSave stashLabel] else [])
                 @ [OpLog (Some (length commits)),
                    OpReset Soft (ParentOf (Some oldest)), OpCommit msg]
                 @ (if staged s @ unstaged s \<noteq> [] then [OpStashPop] else []),
        console := console s
                 @ (if staged s @ unstaged s \<noteq> [] then [StashWarning] else [])
                 @ [] @ [Success],
        branches := AList.update (current s) (Commit (Some p) msg (leftBehind (Some t) p))
                      (branches s),
        staged := [], modified := staged s @ modified s\<rparr>)"
proof (rule squashCommits_run [OF nf tracked])
  fix s2 :: world
  assume a: "faults s2 = []" "staged s2 = []" "modified s2 = []" "branches s2 = branches s"
    "current s2 = current s" "clock s2 = clock s"
  have t2: "tip s2 = Some t" using t a by (simp add: tip_def)
  have lb2: "leftBehind (Some t) p @ staged s2 \<noteq> []" using lb by simp
  have e: "s2\<lparr>staged := []\<rparr> = s2" using a(2) by (cases s2) simp
  show "rewrite commits msg s2 =
      (Inr (), s2\<lparr>trace := trace s2 @ [OpLog (Some (length commits)),
                    OpReset Soft (ParentOf (Some oldest)), OpCommit msg],
                 console := console s2 @ [],
                 branches := AList.update (current s) (Commit (Some p) msg (leftBehind (Some t) p))
                      (branches s)\<rparr>)"
    unfolding rewrite_fast_run [OF a(1) t2 latest oldest par lb2] using a
    by (cases s2) simp
qed (assumption+)?

lemma forEach_say: "forEach ls say s = (Inr (), s\<lparr>console := console s @ ls\<rparr>)"
proof (induction ls arbitrary: s)
  case Nil
  show ?case by (simp add: ret_def)
next
  case (Cons l ls)
  have "forEach (l # ls) say s = forEach ls say (s\<lparr>console := console s @ [l]\<rparr>)"
    by (simp only: forEach.simps await_def) (subst say_def, simp)
  then show ?case by (simp add: Cons.IH)
qed

lemma dryRun_run:
  assumes nf: "faults s = []" and t: "tip s = Some t"
  shows "squashCommits commits msg True s =
     (Returned,
      s\<lparr>trace := trace s @ [OpStatus, OpLog (Some (max 10 (length commits + 3)))],
        console := console s @ [PreviewTitle, CurrentHeading]
          @ currentEntries commits (take (max 10 (length commits + 3)) (history t))
          @ [AfterHeading]
          @ afterEntries commits msg (take (max 10 (length commits + 3)) (history t))
          @ [DetailsHeading, SquashCount (length commits), NewMessage msg]
          @ (if length (staged s @ unstaged s) > 0
             then [UncommittedCount (length (staged s @ unstaged s))] else [])\<rparr>)"
proof -
  let ?s1 = "s\<lparr>trace := trace s @ [OpStatus]\<rparr>"
  have 1: "git_status s = (Inr (staged s @ unstaged s), ?s1)" using nf by (rule git_status_run)
  have nf1: "faults ?s1 = []" using nf by simp
  have t1: "tip ?s1 = Some t" using t by simp
  note 2 = git_log_run [OF nf1 t1, of "Some (max 10 (length commits + 3))"]
  show ?thesis
    unfolding squashCommits_def squashCommitsTry_def dryRun_def
    by (simp only: await_def 1 2 split_conv sum.case if_True forEach_say option.case) simp
qed

lemma dirty5_facts:
  "faults dirty5 = []" "tip dirty5 = Some commit5" "trace dirty5 = []" "console dirty5 = []"
  "staged dirty5 = []" "modified dirty5 = [''notes.txt'', ''todo.txt'']" "untracked dirty5 = []"
  "unstaged dirty5 = [''notes.txt'', ''todo.txt'']"
  "current dirty5 = ''main''" "branches dirty5 = [(''main'', commit5)]" "clock dirty5 = 42"
  "stashes dirty5 = []"
  by (simp_all add: dirty5_def repo5_def tip_def unstaged_def)

lemma repo5_facts:
  "faults repo5 = []" "tip repo5 = Some commit5" "trace repo5 = []" "console repo5 = []"
  "staged repo5 = []" "modified repo5 = []" "untracked repo5 = []"
  "unstaged repo5 = []"
  "current repo5 = ''main''" "branches repo5 = [(''main'', commit5)]" "clock repo5 = 42"
  "stashes repo5 = []"
  by (simp_all add: repo5_def tip_def unstaged_def)

lemma git_status_result:
  "git_status s = (r, s1) \<Longrightarrow> trace s1 = trace s @ [OpStatus]"
  by (auto simp: git_status_def call_def Let_def split: if_splits)

lemma stashIfDirty_result:
  assumes "stashIfDirty files s1 = (g, s2)"
  shows "trace s2 = trace s1 @ (if files \<noteq> [] then [OpStashSave stashLabel] else [])"
  using assms
  by (auto simp: stashIfDirty_def await_def say_def git_stash_save_def call_def Let_def ret_def
      split: if_splits)

lemma popIfDirty_result:
  assumes "popIfDirty files s3 = (p, s4)"
  shows "trace s4 = trace s3 @ (if files \<noteq> [] then [OpStashPop] else [])"
  using assms
  by (auto simp: popIfDirty_def git_stash_pop_def call_def Let_def ret_def
      split: if_splits list.splits)

lemma historyCall_not_stash:
  assumes "list_all historyCall calls"
  shows "OpStashSave l \<notin> set calls \<and> OpStashPop \<notin> set calls \<and> OpStatus \<notin> set calls"
  using assms by (auto simp: list_all_iff)

lemma newer_nth:
  assumes "distinct xs" "i < j" "j < length xs"
  shows "newer xs (xs ! i) (xs ! j)"
  using assms by (simp add: newer_def indexOf_index)

lemma sorted_newer_take:
  assumes "distinct xs"
  shows "sorted_wrt (newer xs) (take k xs)"
  using assms by (simp add: sorted_wrt_iff_nth_less newer_nth)

lemma sorted_newer_later:
  "sorted_wrt (newer (history t)) (collectLater x (history t))"
proof -
  have "collectLater x (history t) =
      take (length (takeWhile (\<lambda>c. Some c \<noteq> x) (history t))) (history t)"
    unfolding collectLater_takeWhile by (rule takeWhile_eq_take)
  then show ?thesis by (simp only: sorted_newer_take [OF distinct_history])
qed

lemma temp42: "tempName 42 = ''temp-squash-42''"
  by code_simp

lemma fresh5: "tempName (clock repo5) \<notin> fst ` set (branches repo5)"
  by (simp add: repo5_facts temp42)

lemma history5: "history commit5 = [commit5, commit4, commit3, commit2, commit1]"
  by (simp add: commit5_def commit4_def commit3_def commit2_def commit1_def)

lemma parents5:
  "parent commit5 = Some commit4" "parent commit4 = Some commit3"
  "parent commit3 = Some commit2" "parent commit2 = Some commit1" "parent commit1 = None"
  by (simp_all add: commit5_def commit4_def commit3_def commit2_def commit1_def)

lemma distinct5: "distinct [commit5, commit4, commit3, commit2, commit1]"
  using distinct_history [of commit5] by (simp only: history5)

lemma tip_branches [simp]:
  "tip (s\<lparr>branches := AList.update (current s) c (branches s)\<rparr>) = Some c"
  by (simp add: tip_def update_conv')

lemma histories5:
  "history commit1 = [commit1]" "history commit2 = [commit2, commit1]"
  "history commit3 = [commit3, commit2, commit1]"
  "history commit4 = [commit4, commit3, commit2, commit1]"
  by (simp_all add: commit4_def commit3_def commit2_def commit1_def)

lemma contents5:
  "message commit1 = ''one''" "message commit2 = ''two''" "message commit3 = ''three''"
  "message commit4 = ''four''" "message commit5 = ''five''"
  "changes commit1 = [''a'']" "changes commit2 = [''b'']" "changes commit3 = [''c'']"
  "changes commit4 = [''d'']" "changes commit5 = [''e'']"
  by (simp_all add: commit5_def commit4_def commit3_def commit2_def commit1_def)

lemma trace_grows:
  assumes "emits P f"
  shows "\<exists>rest. trace (snd (f s)) = trace s @ rest"
  using assms unfolding emits_def by blast

lemma general_path_starts:
  assumes nf: "faults s = []" and t: "tip s = Some t"
      and fresh: "tempName (clock s) \<notin> fst ` set (branches s)"
  shows "\<exists>rest. trace (snd (squashNonConsecutiveCommits commits msg s)) =
     trace s @ [OpBranch, OpLog None, OpCheckoutNew (tempName (clock s))] @ rest"
proof -
  let ?cur = "current s" and ?tmp = "tempName (clock s)"
  let ?later = "collectLater (firstOf commits) (history t)"
  let ?s1 = "s\<lparr>trace := trace s @ [OpBranch]\<rparr>"
  have 1: "git_branch s = (Inr ?cur, ?s1)" using nf by (rule git_branch_run)
  have 10: "now ?s1 = (Inr (clock s), ?s1)" by (simp add: now_def)
  have nf1: "faults ?s1 = []" using nf by simp
  have t1: "tip ?s1 = Some t" using t by simp
  let ?s2 = "?s1\<lparr>trace := trace ?s1 @ [OpLog None]\<rparr>"
  have 2: "git_log None ?s1 = (Inr (history t), ?s2)"
    using git_log_run [OF nf1 t1, of None] by simp
  have nf2: "faults ?s2 = []" using nf by simp
  have t2: "tip ?s2 = Some t" using t by simp
  have f2: "?tmp \<notin> fst ` set (branches ?s2)" using fresh by simp
  let ?s3 = "?s2\<lparr>trace := trace ?s2 @ [OpCheckoutNew ?tmp],
                branches := (?tmp, t) # branches ?s2, current := ?tmp\<rparr>"
  have 3: "git_checkout_new ?tmp ?s2 = (Inr (), ?s3)"
    using nf2 t2 f2 by (rule git_checkout_new_run)
  let ?tc = "tryCatch (tryBlock ?cur ?tmp ?later commits msg) (catchBlock ?cur ?tmp)"
  have "squashNonConsecutiveCommits commits msg s = ?tc ?s3"
    unfolding squashNonConsecutiveCommits_def Let_def
    by (simp only: await_def 1 10 2 3 split_conv sum.case)
  moreover have "emits historyCall ?tc"
    by (intro emits_tryCatch emits_tryBlock emits_catchBlock)
  then obtain rest where "trace (snd (?tc ?s3)) = trace ?s3 @ rest"
    using trace_grows by blast
  ultimately show ?thesis by simp
qed

lemma stale_rewrite_starts:
  assumes nf: "faults s = []" and t: "tip s = Some t"
      and fresh: "tempName (clock s) \<notin> fst ` set (branches s)"
      and stale: "c \<in> set commits" "c \<notin> set (history t)"
  shows "\<exists>rest. trace (snd (rewrite commits msg s)) =
     trace s @ [OpLog (Some (length commits)), OpBranch, OpLog None,
                OpCheckoutNew (tempName (clock s))] @ rest"
proof -
  have "c \<notin> set (take (length commits) (history t))"
    using stale(2) by (meson in_set_takeD)
  with stale(1) have gen: "\<not> latestAndConsecutive commits (take (length commits) (history t))"
    by (rule absent_not_latest)
  let ?s1 = "s\<lparr>trace := trace s @ [OpLog (Some (length commits))]\<rparr>"
  have 1: "areCommitsLatestAndConsecutive commits s = (Inr False, ?s1)"
    using classifier_run [OF nf t, of commits] gen by simp
  let ?s2 = "?s1\<lparr>console := console ?s1 @ [AdvancedNotice]\<rparr>"
  have 2: "say AdvancedNotice ?s1 = (Inr (), ?s2)" by (simp add: say_def)
  have nf2: "faults ?s2 = []" using nf by simp
  have t2: "tip ?s2 = Some t" using t by simp
  have f2: "tempName (clock ?s2) \<notin> fst ` set (branches ?s2)" using fresh by simp
  have "rewrite commits msg s = squashNonConsecutiveCommits commits msg ?s2"
    unfolding rewrite_def by (simp only: await_def 1 2 split_conv sum.case if_False)
  with general_path_starts [OF nf2 t2 f2, of commits msg] show ?thesis by simp
qed

lemma emits_popIfDirty: "emits (\<lambda>op. True) (popIfDirty files)"
  unfolding popIfDirty_def by auto

lemma squashCommits_after_rewrite:
  assumes 1: "git_status s = (Inr files, s1)" and 2: "stashIfDirty files s1 = (Inr (), s2)"
  shows "\<exists>rest. trace (snd (squashCommits commits msg False s))
     = trace (snd (rewrite commits msg s2)) @ rest"
proof (cases "rewrite commits msg s2")
  case (Pair r s3)
  show ?thesis
  proof (cases r)
    case (Inl e)
    have "squashCommitsTry commits msg False s = (Inl e, s3)"
      unfolding squashCommitsTry_def using Pair Inl
      by (simp only: await_def 1 2 split_conv sum.case if_False)
    then show ?thesis using Pair by (simp add: squashCommits_def say_def)
  next
    case (Inr u)
    let ?k = "await (popIfDirty files) (\<lambda>_. say Success)"
    have "squashCommitsTry commits msg False s = ?k s3"
      unfolding squashCommitsTry_def using Pair Inr
      by (simp only: await_def 1 2 split_conv sum.case if_False)
    moreover have "emits (\<lambda>op. True) ?k" by (intro emits_await emits_popIfDirty emits_say)
    then obtain rest where "trace (snd (?k s3)) = trace s3 @ rest" using trace_grows by blast
    ultimately have "trace (snd (squashCommitsTry commits msg False s)) = trace s3 @ rest"
      by simp
    then show ?thesis
      using Pair by (cases "squashCommitsTry commits msg False s")
        (auto simp: squashCommits_def say_def split: sum.splits)
  qed
qed

lemma moved5_facts:
  "faults moved5 = []" "tip moved5 = Some commit5b" "trace moved5 = []"
  "staged moved5 = []" "modified moved5 = []" "untracked moved5 = []"
  "unstaged moved5 = []" "clock moved5 = 42"
  "branches moved5 = [(''main'', commit5b)]" "current moved5 = ''main''"
  by (simp_all add: moved5_def repo5_def tip_def unstaged_def)

lemma history5b: "history commit5b = [commit5b, commit4, commit3, commit2, commit1]"
  by (simp add: commit5b_def histories5)

lemma stale5: "commit5 \<notin> set (history commit5b)"
proof -
  have "commit5 \<noteq> commit5b" by (simp add: commit5_def commit5b_def)
  with distinct5 show ?thesis by (simp add: history5b)
qed

lemma fresh5b: "tempName (clock moved5) \<notin> fst ` set (branches moved5)"
  by (simp add: moved5_facts temp42)

lemma fast_root:
  assumes "lastOf commits = Some c" "parent c = None"
  shows "isl (fst (squashLatestCommits commits msg s))
       \<and> newCalls s (snd (squashLatestCommits commits msg s)) = [OpReset Soft (ParentOf (Some c))]
       \<and> branches (snd (squashLatestCommits commits msg s)) = branches s
       \<and> (faults s = [] \<longrightarrow>
            fst (squashLatestCommits commits msg s) = Inl (BadRevision (ParentOf (Some c))))"
  using assms
  by (simp add: squashLatestCommits_def await_def git_reset_def call_def resolve_def Let_def
        newCalls_def)

lemma reset_root:
  assumes "parent c = None"
  shows "git_reset m (ParentOf (Some c)) s =
     (Inl (if length (trace s) \<in> set (faults s) then GitFailed (OpReset m (ParentOf (Some c)))
           else BadRevision (ParentOf (Some c))),
      s\<lparr>trace := trace s @ [OpReset m (ParentOf (Some c))]\<rparr>)"
  using assms by (simp add: git_reset_def call_def resolve_def Let_def)

lemma tryBlock_root:
  assumes "lastOf commits = Some c" "parent c = None"
  shows "tryBlock cur tmp later commits msg s =
     (Inl (if length (trace s) \<in> set (faults s) then GitFailed (OpReset Hard (ParentOf (Some c)))
           else BadRevision (ParentOf (Some c))),
      s\<lparr>trace := trace s @ [OpReset Hard (ParentOf (Some c))]\<rparr>)"
  using assms by (simp add: tryBlock_def reconstructHistory_def await_def reset_root)

lemma map_of_snd: "map_of B k = Some v \<Longrightarrow> \<exists>x\<in>set B. v = snd x"
  by (force dest: map_of_SomeD)

lemma general_root:
  assumes "lastOf commits = Some c" "parent c = None"
  shows "isl (fst (squashNonConsecutiveCommits commits msg s))
       \<and> list_all (\<lambda>op. \<not> isCherryPick op \<and> op \<noteq> OpCommit msg)
           (newCalls s (snd (squashNonConsecutiveCommits commits msg s)))
       \<and> snd ` set (branches (snd (squashNonConsecutiveCommits commits msg s)))
           \<subseteq> snd ` set (branches s)"
  unfolding squashNonConsecutiveCommits_def Let_def
  apply (simp add: tryBlock_root [OF assms] await_def tryCatch_def catchBlock_def suppress_def
        git_branch_def git_log_def git_checkout_new_def git_checkout_def git_branch_delete_def
        call_def now_def throw_def Let_def newCalls_def tip_def
        split: option.splits)
  apply (auto simp: image_iff dest: map_of_snd)
  done

lemma general_root_error:
  assumes "lastOf commits = Some c" "parent c = None"
      and "faults s = []" "tip s = Some t" "tempName (clock s) \<notin> fst ` set (branches s)"
  shows "fst (squashNonConsecutiveCommits commits msg s) = Inl (BadRevision (ParentOf (Some c)))"
  using assms(3-5)
  unfolding squashNonConsecutiveCommits_def Let_def
  by (simp add: tryBlock_root [OF assms(1,2)] await_def tryCatch_def catchBlock_def suppress_def
        git_branch_def git_log_def git_checkout_new_def git_checkout_def
        call_def now_def throw_def Let_def tip_def)

lemma conflict5_facts:
  "faults conflict5 = [5, 6]" "tip conflict5 = Some commit5" "trace conflict5 = []"
  "staged conflict5 = []" "modified conflict5 = []" "untracked conflict5 = []"
  "unstaged conflict5 = []" "clock conflict5 = 42"
  "branches conflict5 = [(''main'', commit5)]" "current conflict5 = ''main''"
  by (simp_all add: conflict5_def repo5_def tip_def unstaged_def)

lemma conflict_before_try:
  "squashNonConsecutiveCommits [commit4, commit2] ''both'' conflict5 =
     tryCatch (tryBlock ''main'' ''temp-squash-42'' [commit5] [commit4, commit2] ''both'')
       (catchBlock ''main'' ''temp-squash-42'') conflictAtTry"
proof -
  let ?s1 = "conflict5\<lparr>trace := [OpBranch]\<rparr>"
  have 1: "git_branch conflict5 = (Inr ''main'', ?s1)"
    by (simp add: git_branch_def call_def conflict5_facts)
  have 10: "now ?s1 = (Inr 42, ?s1)" by (simp add: now_def conflict5_facts)
  let ?s2 = "conflict5\<lparr>trace := [OpBranch, OpLog None]\<rparr>"
  have 2: "git_log None ?s1 = (Inr (history commit5), ?s2)"
    by (simp add: git_log_def call_def conflict5_facts tip_def)
  have 3: "git_checkout_new ''temp-squash-42'' ?s2 = (Inr (), conflictAtTry)"
    by (simp add: git_checkout_new_def call_def conflict5_facts tip_def conflictAtTry_def)
  have later: "collectLater (firstOf [commit4, commit2]) (history commit5) = [commit5]"
    using distinct5 by (simp add: history5 firstOf_def at_def)
  show ?thesis
    unfolding squashNonConsecutiveCommits_def Let_def
    by (simp only: await_def 1 10 2 3 split_conv sum.case temp42 later)
qed

lemma conflict_in_try:
  "tryBlock ''main'' ''temp-squash-42'' [commit5] [commit4, commit2] ''both'' conflictAtTry =
     (Inl (GitFailed (OpCherryPick commit4)), conflictAtCatch)"
proof -
  let ?r = "ParentOf (Some commit2)"
  let ?s1 = "conflictAtTry\<lparr>trace := trace conflictAtTry @ [OpReset Hard ?r],
     branches := [(''temp-squash-42'', commit1), (''main'', commit5)]\<rparr>"
  have 1: "git_reset Hard ?r conflictAtTry = (Inr (), ?s1)"
    by (simp add: git_reset_def call_def resolve_def parents5 conflictAtTry_def conflict5_def
          repo5_def)
  let ?s2 = "?s1\<lparr>trace := trace ?s1 @ [OpCherryPick commit2],
     branches := [(''temp-squash-42'', Commit (Some commit1) ''two'' [''b'']), (''main'', commit5)]\<rparr>"
  have 2: "git_cherry_pick commit2 ?s1 = (Inr (), ?s2)"
    by (simp add: git_cherry_pick_def call_def tip_def contents5 conflictAtTry_def conflict5_facts)
  have 3: "git_cherry_pick commit4 ?s2 = (Inl (GitFailed (OpCherryPick commit4)), conflictAtCatch)"
    by (simp add: git_cherry_pick_def call_def conflictAtTry_def conflictAtCatch_def
          conflict5_facts)
  have l: "lastOf [commit4, commit2] = Some commit2" by (simp add: lastOf_def at_def)
  show ?thesis
    unfolding tryBlock_def reconstructHistory_def l
    by (simp only: option.case rev.simps append.simps forEach.simps await_def 1 2 3
          split_conv sum.case)
qed

lemma conflict_run:
  "squashNonConsecutiveCommits [commit4, commit2] ''both'' conflict5 =
     (Inl (GitFailed (OpCheckout ''main'')),
      conflictAtCatch\<lparr>trace := trace conflictAtCatch @ [OpCheckout ''main'']\<rparr>)"
proof -
  have "git_checkout ''main'' conflictAtCatch =
      (Inl (GitFailed (OpCheckout ''main'')),
       conflictAtCatch\<lparr>trace := trace conflictAtCatch @ [OpCheckout ''main'']\<rparr>)"
    by (simp add: git_checkout_def call_def conflictAtCatch_def conflict5_facts)
  then show ?thesis
    unfolding conflict_before_try
    by (simp add: tryCatch_def conflict_in_try catchBlock_def await_def)
qed

lemma resetsOriginalI: "resetsOriginal b (xs @ OpCheckout b # OpReset Hard r # ys)"
proof (induction xs)
  case Nil
  show ?case by (simp add: resetsOriginal_def)
next
  case (Cons x xs)
  obtain a rest where l: "xs @ OpCheckout b # OpReset Hard r # ys = a # rest"
    by (cases xs) auto
  from Cons show ?case by (simp add: resetsOriginal_def l)
qed

lemma keepsBranchI:
  assumes "\<And>s. current s \<noteq> b \<Longrightarrow>
     current (snd (f s)) = current s \<and> map_of (branches (snd (f s))) b = map_of (branches s) b"
  shows "keepsBranch b f"
  using assms by (simp add: keepsBranch_def)

lemma keepsBranchD:
  assumes "keepsBranch b f" "current s \<noteq> b"
  shows "current (snd (f s)) = current s" "map_of (branches (snd (f s))) b = map_of (branches s) b"
  using assms by (simp_all add: keepsBranch_def)

lemma keepsBranch_ret: "keepsBranch b (ret x)"
  by (simp add: keepsBranch_def ret_def)

lemma keepsBranch_throw: "keepsBranch b (throw e)"
  by (simp add: keepsBranch_def throw_def)

lemma keepsBranch_await:
  assumes "keepsBranch b f" "\<And>x. keepsBranch b (g x)"
  shows "keepsBranch b (await f g)"
proof (rule keepsBranchI)
  fix s :: world assume s: "current s \<noteq> b"
  note f = keepsBranchD [OF assms(1) s]
  show "current (snd (await f g s)) = current s \<and>
      map_of (branches (snd (await f g s))) b = map_of (branches s) b"
  proof (cases "f s")
    case (Pair r s1)
    show ?thesis
    proof (cases r)
      case (Inl e)
      with Pair f show ?thesis by (simp add: await_def)
    next
      case (Inr x)
      from Pair f s have s1: "current s1 \<noteq> b" by simp
      from keepsBranchD [OF assms(2) s1, of x] Pair Inr f show ?thesis by (simp add: await_def)
    qed
  qed
qed

lemma keepsBranch_forEach: "(\<And>x. keepsBranch b (f x)) \<Longrightarrow> keepsBranch b (forEach xs f)"
  by (induction xs) (simp_all add: keepsBranch_ret keepsBranch_await)

lemma keepsBranch_git_reset: "keepsBranch b (git_reset m r)"
  by (rule keepsBranchI)
     (simp add: git_reset_def call_def Let_def update_conv' split: sum.splits resetMode.splits)

lemma keepsBranch_git_cherry_pick: "keepsBranch b (git_cherry_pick c)"
  by (rule keepsBranchI)
     (simp add: git_cherry_pick_def call_def Let_def update_conv' split: option.splits)

lemma keepsBranch_git_commit: "keepsBranch b (git_commit m)"
  by (rule keepsBranchI) (simp add: git_commit_def call_def Let_def update_conv')

lemma keepsBranch_git_revparse_head: "keepsBranch b git_revparse_head"
  by (rule keepsBranchI) (simp add: git_revparse_head_def call_def Let_def split: option.splits)

lemma keepsBranch_reconstructHistory: "keepsBranch b (reconstructHistory commits msg)"
  unfolding reconstructHistory_def
  by (cases "lastOf commits")
     (simp_all add: keepsBranch_throw keepsBranch_await keepsBranch_forEach keepsBranch_ret
        keepsBranch_git_reset keepsBranch_git_cherry_pick keepsBranch_git_commit
        keepsBranch_git_revparse_head)

lemma catchBlock_keeps:
  assumes "cur \<noteq> tmp"
  shows "map_of (branches (snd (catchBlock cur tmp e s))) cur = map_of (branches s) cur"
  using assms
  by (simp add: catchBlock_def await_def suppress_def throw_def git_checkout_def
        git_branch_delete_def call_def Let_def split: option.splits)

lemma git_reset_trace: "trace (snd (git_reset m r s)) = trace s @ [OpReset m r]"
  by (simp add: git_reset_def call_def Let_def split: sum.splits resetMode.splits)

lemma await_starts:
  assumes "trace (snd (f s)) = trace s @ op # r1" "\<And>x. emits P (g x)"
  shows "\<exists>r2. trace (snd (await f g s)) = trace s @ op # r2"
proof (cases "f s")
  case (Pair r s1)
  show ?thesis
  proof (cases r)
    case (Inl e)
    with Pair assms(1) show ?thesis by (simp add: await_def)
  next
    case (Inr x)
    obtain c where "trace (snd (g x s1)) = trace s1 @ c" using assms(2) by (rule emitsD)
    with Pair Inr assms(1) show ?thesis by (simp add: await_def)
  qed
qed

lemma tryCatch_starts:
  assumes "trace (snd (f s)) = trace s @ op # r1" "\<And>e. emits P (h e)"
  shows "\<exists>r2. trace (snd (tryCatch f h s)) = trace s @ op # r2"
proof (cases "f s")
  case (Pair r s1)
  show ?thesis
  proof (cases r)
    case (Inr x)
    with Pair assms(1) show ?thesis by (simp add: tryCatch_def)
  next
    case (Inl e)
    obtain c where "trace (snd (h e s1)) = trace s1 @ c" using assms(2) by (rule emitsD)
    with Pair Inl assms(1) show ?thesis by (simp add: tryCatch_def)
  qed
qed

lemma prelude_cases:
  assumes "squashNonConsecutiveCommits commits msg s = (r, s')"
  shows "(isl r \<and> branches s' = branches s) \<or>
     (\<exists>t. tip s = Some t \<and> tempName (clock s) \<notin> fst ` set (branches s) \<and>
        tryCatch (tryBlock (current s) (tempName (clock s))
                    (collectLater (firstOf commits) (history t)) commits msg)
                 (catchBlock (current s) (tempName (clock s)))
           (s\<lparr>trace := trace s @ [OpBranch, OpLog None, OpCheckoutNew (tempName (clock s))],
              branches := (tempName (clock s), t) # branches s,
              current := tempName (clock s)\<rparr>) = (r, s'))"
  using assms
  unfolding squashNonConsecutiveCommits_def Let_def
  by (auto simp: await_def git_branch_def git_log_def git_checkout_new_def call_def now_def
        Let_def tip_def split: if_splits option.splits)

section \<open>Lemmas about runs that succeed\<close>

lemma unfaultedI:
  assumes "\<And>s x s'. f s = (Inr x, s') \<Longrightarrow> f (s\<lparr>faults := []\<rparr>) = (Inr x, s'\<lparr>faults := []\<rparr>)"
  shows "unfaulted f"
  using assms unfolding unfaulted_def by blast

lemma unfaultedD:
  assumes "unfaulted f" "f s = (Inr x, s')"
  shows "f (s\<lparr>faults := []\<rparr>) = (Inr x, s'\<lparr>faults := []\<rparr>)"
  using assms unfolding unfaulted_def by blast

lemma unfaulted_ret: "unfaulted (ret x)"
  by (rule unfaultedI) (auto simp: ret_def)

lemma unfaulted_throw: "unfaulted (throw e)"
  by (rule unfaultedI) (simp add: throw_def)

lemma unfaulted_say: "unfaulted (say l)"
  by (rule unfaultedI) (auto simp: say_def)

lemma unfaulted_now: "unfaulted now"
  by (rule unfaultedI) (auto simp: now_def)

lemma unfaulted_await:
  assumes "unfaulted f" "\<And>x. unfaulted (g x)"
  shows "unfaulted (await f g)"
proof (rule unfaultedI)
  fix s x s' assume a: "await f g s = (Inr x, s')"
  obtain r s1 where f: "f s = (r, s1)" by (cases "f s")
  show "await f g (s\<lparr>faults := []\<rparr>) = (Inr x, s'\<lparr>faults := []\<rparr>)"
  proof (cases r)
    case (Inl e)
    with a f show ?thesis by (simp add: await_def)
  next
    case (Inr y)
    with a f have g: "g y s1 = (Inr x, s')" by (simp add: await_def)
    from unfaultedD [OF assms(1)] f Inr
    have "f (s\<lparr>faults := []\<rparr>) = (Inr y, s1\<lparr>faults := []\<rparr>)" by simp
    moreover from unfaultedD [OF assms(2) g]
    have "g y (s1\<lparr>faults := []\<rparr>) = (Inr x, s'\<lparr>faults := []\<rparr>)" .
    ultimately show ?thesis by (simp add: await_def)
  qed
qed

lemma unfaulted_tryCatch:
  assumes "unfaulted f" "\<And>e s. isl (fst (h e s))"
  shows "unfaulted (tryCatch f h)"
proof (rule unfaultedI)
  fix s x s' assume a: "tryCatch f h s = (Inr x, s')"
  obtain r s1 where f: "f s = (r, s1)" by (cases "f s")
  show "tryCatch f h (s\<lparr>faults := []\<rparr>) = (Inr x, s'\<lparr>faults := []\<rparr>)"
  proof (cases r)
    case (Inl e)
    with a f have "h e s1 = (Inr x, s')" by (simp add: tryCatch_def)
    with assms(2) [of e s1] show ?thesis by simp
  next
    case (Inr y)
    with a f have "f s = (Inr x, s')" by (simp add: tryCatch_def)
    from unfaultedD [OF assms(1) this] show ?thesis by (simp add: tryCatch_def)
  qed
qed

lemma unfaulted_forEach: "(\<And>x. unfaulted (f x)) \<Longrightarrow> unfaulted (forEach xs f)"
  by (induction xs) (simp_all add: unfaulted_ret unfaulted_await)

lemma unfaulted_call:
  assumes "\<And>s. run (s\<lparr>faults := []\<rparr>) = (fst (run s), (snd (run s))\<lparr>faults := []\<rparr>)"
  shows "unfaulted (call op run)"
proof (rule unfaultedI)
  fix s x s' assume a: "call op run s = (Inr x, s')"
  then have r: "run (s\<lparr>trace := trace s @ [op]\<rparr>) = (Inr x, s')"
    by (simp add: call_def Let_def split: if_splits)
  have eq: "s\<lparr>faults := [], trace := trace s @ [op]\<rparr>
      = (s\<lparr>trace := trace s @ [op]\<rparr>)\<lparr>faults := []\<rparr>"
    by (cases s) simp
  have "call op run (s\<lparr>faults := []\<rparr>) = run (s\<lparr>faults := [], trace := trace s @ [op]\<rparr>)"
    by (simp add: call_def)
  also have "\<dots> = run ((s\<lparr>trace := trace s @ [op]\<rparr>)\<lparr>faults := []\<rparr>)"
    by (simp only: eq)
  also have "\<dots> = (Inr x, s'\<lparr>faults := []\<rparr>)"
    using assms [of "s\<lparr>trace := trace s @ [op]\<rparr>"] r by simp
  finally show "call op run (s\<lparr>faults := []\<rparr>) = (Inr x, s'\<lparr>faults := []\<rparr>)" .
qed

lemma tip_faults [simp]: "tip (s\<lparr>faults := F\<rparr>) = tip s"
  by (simp add: tip_def)

lemma unfaulted_git_log: "unfaulted (git_log n)"
  unfolding git_log_def by (rule unfaulted_call) (simp split: option.splits)

lemma unfaulted_git_status: "unfaulted git_status"
  unfolding git_status_def by (rule unfaulted_call) simp

lemma unfaulted_git_branch: "unfaulted git_branch"
  unfolding git_branch_def by (rule unfaulted_call) simp

lemma unfaulted_git_checkout_new: "unfaulted (git_checkout_new b)"
  unfolding git_checkout_new_def by (rule unfaulted_call) (simp split: option.splits)

lemma unfaulted_git_checkout: "unfaulted (git_checkout b)"
  unfolding git_checkout_def by (rule unfaulted_call) (simp split: option.splits)

lemma unfaulted_git_reset: "unfaulted (git_reset m r)"
  unfolding git_reset_def
  by (rule unfaulted_call) (simp split: sum.splits resetMode.splits)

lemma unfaulted_git_cherry_pick: "unfaulted (git_cherry_pick c)"
  unfolding git_cherry_pick_def by (rule unfaulted_call) (simp split: option.splits)

lemma unfaulted_git_commit: "unfaulted (git_commit m)"
  unfolding git_commit_def by (rule unfaulted_call) simp

lemma unfaulted_git_revparse_head: "unfaulted git_revparse_head"
  unfolding git_revparse_head_def by (rule unfaulted_call) (simp split: option.splits)

lemma unfaulted_git_branch_delete: "unfaulted (git_branch_delete b)"
  unfolding git_branch_delete_def by (rule unfaulted_call) simp

lemma unfaulted_git_stash_save: "unfaulted (git_stash_save l)"
  unfolding git_stash_save_def by (rule unfaulted_call) simp

lemma unfaulted_git_stash_pop: "unfaulted git_stash_pop"
  unfolding git_stash_pop_def by (rule unfaulted_call) (simp split: list.splits)

lemmas unfaulted_intros =
  unfaulted_ret unfaulted_throw unfaulted_say unfaulted_now unfaulted_await unfaulted_forEach
  unfaulted_git_log unfaulted_git_status unfaulted_git_branch unfaulted_git_checkout_new
  unfaulted_git_checkout unfaulted_git_reset unfaulted_git_cherry_pick unfaulted_git_commit
  unfaulted_git_revparse_head unfaulted_git_branch_delete unfaulted_git_stash_save
  unfaulted_git_stash_pop

lemma unfaulted_reconstructHistory: "unfaulted (reconstructHistory commits msg)"
  unfolding reconstructHistory_def
  by (cases "lastOf commits") (simp_all add: unfaulted_intros)

lemma unfaulted_applyToMainBranch: "unfaulted (applyToMainBranch cur oldest new later)"
  unfolding applyToMainBranch_def by (intro unfaulted_intros) (simp add: unfaulted_intros)

lemma unfaulted_tryBlock: "unfaulted (tryBlock cur tmp later commits msg)"
  unfolding tryBlock_def
  by (intro unfaulted_await unfaulted_reconstructHistory)
     (auto intro!: unfaulted_await unfaulted_applyToMainBranch unfaulted_git_branch_delete)

lemma catchBlock_fails: "isl (fst (catchBlock cur tmp e s))"
  by (cases "git_checkout cur s")
     (auto simp: catchBlock_def await_def suppress_def throw_def split: sum.splits)

lemma unfaulted_squashNonConsecutiveCommits:
  "unfaulted (squashNonConsecutiveCommits commits msg)"
  unfolding squashNonConsecutiveCommits_def Let_def
  by (intro unfaulted_await unfaulted_git_branch unfaulted_now unfaulted_git_log
        unfaulted_git_checkout_new unfaulted_tryCatch unfaulted_tryBlock catchBlock_fails)

lemma squashNonConsecutiveCommits_unfaulted:
  assumes "fst (squashNonConsecutiveCommits commits msg s) = Inr ()"
  shows "squashNonConsecutiveCommits commits msg (s\<lparr>faults := []\<rparr>) =
     (Inr (), (snd (squashNonConsecutiveCommits commits msg s))\<lparr>faults := []\<rparr>)"
  using unfaultedD [OF unfaulted_squashNonConsecutiveCommits, of commits msg s "()"] assms
  by (cases "squashNonConsecutiveCommits commits msg s") simp

section \<open>Lemmas about the selection and the cherry-picks\<close>

lemma pickedOn_picks:
  "pickedOn b (map OpCherryPick cs @ ops) = map (Pair b) cs @ pickedOn b ops"
  by (induction cs) simp_all

lemma selectCommits_listed:
  assumes "selectCommits (take n (history t)) ticked = Some commits"
  shows "sorted_wrt (newer (history t)) commits" and "lastOf commits = Some (last commits)"
    and "2 \<le> length commits"
proof -
  from assms have c: "commits = filter (\<lambda>c. c \<in> set ticked) (take n (history t))"
    and l: "2 \<le> length commits"
    by (auto simp: selectCommits_def Let_def split: if_splits)
  show "sorted_wrt (newer (history t)) commits"
    unfolding c by (intro sorted_wrt_filter sorted_newer_take distinct_history)
  show "2 \<le> length commits" by (rule l)
  from l have "commits \<noteq> []" by auto
  then show "lastOf commits = Some (last commits)"
    by (simp add: lastOf_def at_def last_conv_nth)
qed

section \<open>The properties\<close>

text \<open>
  C9. For every selection and every permutation of its list of identities,
  \<^verbatim>\<open>areCommitsLatestAndConsecutive\<close> gives the same answer (and leaves the same state):
  the classification depends on the selection as a multiset, not on the order of the list.
\<close>

theorem classifier_order_independent:
  assumes "mset commits = mset commits'"
  shows "areCommitsLatestAndConsecutive commits s = areCommitsLatestAndConsecutive commits' s"
proof -
  have "length commits = length commits'" using assms by (metis size_mset)
  then show ?thesis
    by (simp add: areCommitsLatestAndConsecutive_def latestAndConsecutive_perm [OF assms])
qed

theorem classifier_order_independent_witness:
  "mset [commit4, commit5] = mset [commit5, commit4] \<and>
   areCommitsLatestAndConsecutive [commit4, commit5] repo5 =
     areCommitsLatestAndConsecutive [commit5, commit4] repo5 \<and>
   fst (areCommitsLatestAndConsecutive [commit4, commit5] repo5) = Inr True"
proof -
  have h: "mset [commit4, commit5] = mset [commit5, commit4]" by (simp add: add_mset_commute)
  have e: "fst (areCommitsLatestAndConsecutive [commit4, commit5] repo5) = Inr True"
    by code_simp
  from h classifier_order_independent [OF h, of repo5] e show ?thesis by simp
qed

text \<open>
  C3. Let the log call of the classifier succeed on a branch with tip \<open>t\<close>, and let the
  selection have no duplicates. If the selection, as a set, is the \<open>length commits\<close> most
  recent commits of the history, in whatever order it lists them, the classifier answers
  \<^verbatim>\<open>true\<close> and lines 236-243 run \<^verbatim>\<open>squashLatestCommits\<close>. If the selection has a gap
  (an unselected commit \<open>u\<close> strictly between two selected commits, or newer than all
  selected commits), the classifier answers \<^verbatim>\<open>false\<close> and the same lines run
  \<^verbatim>\<open>squashNonConsecutiveCommits\<close>.
\<close>

theorem classifier_chooses_path:
  assumes "distinct commits" "tip s = Some t" "length (trace s) \<notin> set (faults s)"
  shows "(set commits = set (take (length commits) (history t)) \<longrightarrow>
            fst (areCommitsLatestAndConsecutive commits s) = Inr True \<and>
            rewrite commits msg s =
              squashLatestCommits commits msg (snd (areCommitsLatestAndConsecutive commits s)))
       \<and> (gap (history t) commits u \<longrightarrow>
            fst (areCommitsLatestAndConsecutive commits s) = Inr False \<and>
            rewrite commits msg s =
              await (say AdvancedNotice) (\<lambda>_. squashNonConsecutiveCommits commits msg)
                (snd (areCommitsLatestAndConsecutive commits s)))"
proof (intro conjI impI)
  note c = classifier_ok [OF assms(2,3), of commits]
  {
    assume "set commits = set (take (length commits) (history t))"
    then have l: "latestAndConsecutive commits (take (length commits) (history t))"
      using assms(1) distinct_history [of t] by (intro same_set_latest) simp_all
    show "fst (areCommitsLatestAndConsecutive commits s) = Inr True" using c l by simp
    show "rewrite commits msg s =
        squashLatestCommits commits msg (snd (areCommitsLatestAndConsecutive commits s))"
      using c l by (simp add: rewrite_def await_def)
  }
  {
    assume "gap (history t) commits u"
    from gap_newer [OF this]
    obtain c' where "u \<notin> set commits" "c' \<in> set commits" "newer (history t) u c'"
      by blast
    then have l: "\<not> latestAndConsecutive commits (take (length commits) (history t))"
      using assms(1) distinct_history [of t] gap_not_latest by metis
    show "fst (areCommitsLatestAndConsecutive commits s) = Inr False" using c l by simp
    show "rewrite commits msg s =
        await (say AdvancedNotice) (\<lambda>_. squashNonConsecutiveCommits commits msg)
          (snd (areCommitsLatestAndConsecutive commits s))"
      using c l by (simp add: rewrite_def await_def [of "areCommitsLatestAndConsecutive commits"])
  }
qed

theorem classifier_chooses_path_witness:
  "distinct [commit4, commit5] \<and> tip repo5 = Some commit5 \<and>
   length (trace repo5) \<notin> set (faults repo5) \<and>
   set [commit4, commit5] = set (take (length [commit4, commit5]) (history commit5)) \<and>
   fst (areCommitsLatestAndConsecutive [commit4, commit5] repo5) = Inr True \<and>
   rewrite [commit4, commit5] ''both'' repo5 =
     squashLatestCommits [commit4, commit5] ''both''
       (snd (areCommitsLatestAndConsecutive [commit4, commit5] repo5)) \<and>
   distinct [commit4, commit2] \<and>
   gap (history commit5) [commit4, commit2] commit3 \<and>
   gap (history commit5) [commit4, commit2] commit5 \<and>
   fst (areCommitsLatestAndConsecutive [commit4, commit2] repo5) = Inr False \<and>
   rewrite [commit4, commit2] ''both'' repo5 =
     await (say AdvancedNotice) (\<lambda>_. squashNonConsecutiveCommits [commit4, commit2] ''both'')
       (snd (areCommitsLatestAndConsecutive [commit4, commit2] repo5))"
proof -
  have d1: "distinct [commit4, commit5]" by code_simp
  have d2: "distinct [commit4, commit2]" by code_simp
  have t: "tip repo5 = Some commit5" by code_simp
  have f: "length (trace repo5) \<notin> set (faults repo5)" by code_simp
  have s: "set [commit4, commit5] = set (take (length [commit4, commit5]) (history commit5))"
    by code_simp
  have g: "gap (history commit5) [commit4, commit2] commit3" by code_simp
  have g': "gap (history commit5) [commit4, commit2] commit5" by code_simp
  from classifier_chooses_path [OF d1 t f, of "''both''" commit3]
       classifier_chooses_path [OF d2 t f, of "''both''" commit3]
       d1 d2 t f s g g'
  show ?thesis by blast
qed

text \<open>
  C7. A dry run of \<^verbatim>\<open>squashCommits\<close> changes nothing but the trace and the console: it
  calls \<^verbatim>\<open>status\<close> and, if that succeeds, \<^verbatim>\<open>log\<close> with \<^verbatim>\<open>maxCount\<close> \<open>max 10 (length commits + 3)\<close>,
  and nothing else, so no stash, reset, commit, checkout, branch or cherry-pick; what
  \<^verbatim>\<open>status\<close> reports is the same afterwards; and when the preview is printed and there are
  uncommitted changes, it has the line with their number.
\<close>

theorem dry_run_reads_only:
  assumes "squashCommits commits msg True s = (out, s')"
  shows "s'\<lparr>trace := trace s, console := console s\<rparr> = s
       \<and> staged s' @ unstaged s' = staged s @ unstaged s
       \<and> (newCalls s s' = [OpStatus]
            \<or> newCalls s s' = [OpStatus, OpLog (Some (max 10 (length commits + 3)))])
       \<and> list_all readOnly (newCalls s s')
       \<and> (out = Returned \<and> staged s @ unstaged s \<noteq> [] \<longrightarrow>
            UncommittedCount (length (staged s @ unstaged s))
              \<in> set (drop (length (console s)) (console s')))"
  using assms
  by (auto simp: squashCommits_def squashCommitsTry_def dryRun_def git_status_def git_log_def
        call_def await_def forEach_say say_def Let_def newCalls_def
      split: if_splits option.splits prod.splits sum.splits)

theorem dry_run_reads_only_witness:
  "fst (squashCommits [commit4, commit2] ''both'' True dirty5) = Returned \<and>
   staged dirty5 @ unstaged dirty5 \<noteq> [] \<and>
   newCalls dirty5 (snd (squashCommits [commit4, commit2] ''both'' True dirty5)) =
     [OpStatus, OpLog (Some 10)] \<and>
   UncommittedCount 2 \<in> set (drop (length (console dirty5))
     (console (snd (squashCommits [commit4, commit2] ''both'' True dirty5)))) \<and>
   staged (snd (squashCommits [commit4, commit2] ''both'' True dirty5))
     @ unstaged (snd (squashCommits [commit4, commit2] ''both'' True dirty5))
   = [''notes.txt'', ''todo.txt'']"
proof -
  note run = dryRun_run [OF dirty5_facts(1,2), of "[commit4, commit2]" "''both''"]
  from dry_run_reads_only [OF run] show ?thesis
    unfolding run by (simp add: dirty5_facts newCalls_def numeral_2_eq_2)
qed

text \<open>
  C8. In a run of \<^verbatim>\<open>squashCommits\<close> that is not a dry run and whose \<^verbatim>\<open>status\<close> call answers
  \<open>files\<close>: the stash save is called, under the fixed label, exactly when \<open>files\<close> is not
  empty, and then as the second call, before the rewrite starts; the stash pop is called
  exactly when \<open>files\<close> is not empty, the save succeeded and the rewrite succeeded; and when
  the rewrite fails, the stash pop is not called and the process exits with code 1.
\<close>

theorem stash_guard:
  assumes status: "git_status s = (Inr files, s1)"
      and guard: "stashIfDirty files s1 = (g, s2)"
      and squash: "rewrite commits msg s2 = (r, s3)"
      and run: "squashCommits commits msg False s = (out, s')"
  shows "(OpStashSave stashLabel \<in> set (newCalls s s')) = (files \<noteq> [])
       \<and> (files \<noteq> [] \<longrightarrow> newCalls s s2 = [OpStatus, OpStashSave stashLabel])
       \<and> (OpStashPop \<in> set (newCalls s s')) = (files \<noteq> [] \<and> g = Inr () \<and> r = Inr ())
       \<and> (g = Inr () \<and> isl r \<longrightarrow> out = Exited 1 \<and> OpStashPop \<notin> set (newCalls s s'))"
proof -
  note t1 = git_status_result [OF status]
  note t2 = stashIfDirty_result [OF guard]
  obtain c3 where t3: "trace s3 = trace s2 @ c3" and h3: "list_all historyCall c3"
    using emitsD [OF emits_rewrite, of commits msg s2] squash by (metis snd_conv)
  note n3 = historyCall_not_stash [OF h3]
  have say_trace: "\<And>l w. trace (snd (say l w)) = trace w" by (simp add: say_def)
  show ?thesis
  proof (cases g)
    case (Inl e)
    then have "s' = snd (say (ErrorDuringSquash e) s2)" "out = Exited 1"
      using run status guard by (simp_all add: squashCommits_def squashCommitsTry_def await_def)
    then show ?thesis using t1 t2 Inl by (simp add: newCalls_def say_trace)
  next
    case gok: (Inr u)
    show ?thesis
    proof (cases r)
      case (Inl e)
      then have "s' = snd (say (ErrorDuringSquash e) s3)" "out = Exited 1"
        using run status guard squash gok
        by (simp_all add: squashCommits_def squashCommitsTry_def await_def)
      then show ?thesis using t1 t2 t3 n3 Inl gok by (simp add: newCalls_def say_trace)
    next
      case rok: (Inr v)
      obtain p s4 where pop: "popIfDirty files s3 = (p, s4)" by (cases "popIfDirty files s3")
      note t4 = popIfDirty_result [OF pop]
      have "trace s' = trace s4"
        using run status guard squash gok rok pop
        by (cases p) (auto simp: squashCommits_def squashCommitsTry_def await_def say_def)
      then show ?thesis using t1 t2 t3 t4 n3 gok rok by (simp add: newCalls_def)
    qed
  qed
qed

theorem stash_guard_witness:
  "OpStashSave stashLabel
     \<in> set (newCalls dirty5 (snd (squashCommits [commit5, commit4] ''both'' False dirty5))) \<and>
   OpStashPop
     \<in> set (newCalls dirty5 (snd (squashCommits [commit5, commit4] ''both'' False dirty5))) \<and>
   fst (squashCommits [commit5, commit4] ''both'' False dirty5) = Returned"
proof -
  let ?commits = "[commit5, commit4]"
  let ?files = "staged dirty5 @ unstaged dirty5"
  let ?s1 = "dirty5\<lparr>trace := trace dirty5 @ [OpStatus]\<rparr>"
  have files: "?files = [''notes.txt'', ''todo.txt'']" by (simp add: dirty5_facts)
  have status: "git_status dirty5 = (Inr ?files, ?s1)"
    by (rule git_status_run) (rule dirty5_facts)
  have nf1: "faults ?s1 = []" by (simp add: dirty5_facts)
  have tr: "staged dirty5 @ modified dirty5 = [] \<Longrightarrow> untracked dirty5 = []"
    by (simp add: dirty5_facts)
  have tr1: "staged ?s1 @ modified ?s1 = [] \<Longrightarrow> untracked ?s1 = []"
    by (simp add: dirty5_facts)
  have guard: "stashIfDirty ?files ?s1 = (Inr (), snd (stashIfDirty ?files ?s1))"
    using stashIfDirty_run [OF nf1 tr1] by simp
  let ?s2 = "snd (stashIfDirty ?files ?s1)"
  have s2: "faults ?s2 = []" "tip ?s2 = Some commit5"
    using stashIfDirty_run [OF nf1 tr1] by (simp_all add: dirty5_facts tip_def)
  have st2: "staged ?s2 = []"
    using stashIfDirty_run [OF nf1 tr1] by (simp add: dirty5_facts)
  have latest: "latestAndConsecutive ?commits (take (length ?commits) (history commit5))"
    by code_simp
  have oldest: "lastOf ?commits = Some commit4" by (simp add: lastOf_def at_def)
  have par: "parent commit4 = Some commit3" by (simp add: commit4_def)
  have lb: "leftBehind (Some commit5) commit3 \<noteq> []" by code_simp
  have lb2: "leftBehind (Some commit5) commit3 @ staged ?s2 \<noteq> []" using lb by simp
  have squash: "rewrite ?commits ''both'' ?s2 = (Inr (), snd (rewrite ?commits ''both'' ?s2))"
    using rewrite_fast_run [OF s2 latest oldest par lb2, of "''both''"] by simp
  have run: "squashCommits ?commits ''both'' False dirty5 =
      (Returned, snd (squashCommits ?commits ''both'' False dirty5))"
    using squashCommits_fast_run [OF dirty5_facts(1,2) tr latest oldest par lb, of "''both''"]
    by simp
  from stash_guard [OF status guard squash run] files run show ?thesis
    by (metis fst_conv list.distinct(1))
qed

text \<open>
  C1. The property fails on the code, by a defect of the code. Take the branch with the
  history five, four, three, two, one and tick four and two: the selection is
  \<open>[commit4, commit2]\<close>. The preview of the dry run (lines 207-220) lists, after the squash,
  five, three, the new commit and one. The run that is not a dry run succeeds and
  leaves the history five, both, one: \<^verbatim>\<open>laterCommits\<close> (lines 81-89) holds only the commits
  that are newer than \<^verbatim>\<open>commits[0]\<close>, so commit three, which lies between the two selected
  commits, is never cherry-picked back and is lost.
\<close>

theorem interleaved_commit_is_lost:
  "selectCommits (take 10 (history commit5)) [commit4, commit2] = Some [commit4, commit2] \<and>
   map message (history commit5) = [''five'', ''four'', ''three'', ''two'', ''one''] \<and>
   take 4 (drop 8 (console (snd (squashCommits [commit4, commit2] ''both'' True repo5)))) =
     [UnaffectedEntry commit5 ''five'', UnaffectedEntry commit3 ''three'', NewEntry ''both'',
      UnaffectedEntry commit1 ''one''] \<and>
   fst (squashCommits [commit4, commit2] ''both'' False repo5) = Returned \<and>
   map message
     (history (the (tip (snd (squashCommits [commit4, commit2] ''both'' False repo5)))))
     = [''five'', ''both'', ''one''] \<and>
   map changes
     (history (the (tip (snd (squashCommits [commit4, commit2] ''both'' False repo5)))))
     = [[''e''], [''b'', ''d''], [''a'']] \<and>
   commit3 \<notin> set (history (the (tip
     (snd (squashCommits [commit4, commit2] ''both'' False repo5)))))"
  by code_simp

text \<open>
  C4. Let the selection be the answer of the checkbox prompt, for any order of ticking; let
  the oldest selected commit have a parent, let some selected commit hold a change and let the
  name of the temporary branch be unused. A run of the general path in which no call fails
  succeeds, and in every run that succeeds the calls are the ones listed below: the selected
  commits are cherry-picked while the temporary branch is checked out, from the oldest to the
  newest; the new commit and then the later commits are cherry-picked while the original
  branch is checked out, the later commits from the oldest to the newest, which is the
  reverse of the order in which the log lists them.
\<close>

theorem cherry_pick_order:
  assumes t: "tip s = Some t" and fresh: "tempName (clock s) \<notin> fst ` set (branches s)"
      and sel: "selectCommits (take n (history t)) ticked = Some commits"
      and par: "parent (last commits) = Some p"
      and ch: "concat (map changes commits) \<noteq> []"
  shows "(faults s = [] \<longrightarrow> fst (squashNonConsecutiveCommits commits msg s) = Inr ())
       \<and> (fst (squashNonConsecutiveCommits commits msg s) = Inr () \<longrightarrow>
           newCalls s (snd (squashNonConsecutiveCommits commits msg s)) =
             [OpBranch, OpLog None, OpCheckoutNew (tempName (clock s)),
              OpReset Hard (ParentOf (Some (last commits)))]
             @ map OpCherryPick (rev commits)
             @ [OpReset Soft (ParentOf (Some (last commits))), OpCommit msg, OpRevParseHead,
                OpCheckout (current s), OpReset Hard (ParentOf (Some (last commits))),
                OpCherryPick (squashed p msg commits)]
             @ map OpCherryPick (rev (collectLater (firstOf commits) (history t)))
             @ [OpBranchDelete (tempName (clock s))]
         \<and> pickedOn (current s) (newCalls s (snd (squashNonConsecutiveCommits commits msg s))) =
             map (Pair (tempName (clock s))) (rev commits)
             @ [(current s, squashed p msg commits)]
             @ map (Pair (current s)) (rev (collectLater (firstOf commits) (history t))))
       \<and> sorted_wrt (\<lambda>a b. newer (history t) b a) (rev commits)
       \<and> sorted_wrt (\<lambda>a b. newer (history t) b a)
           (rev (collectLater (firstOf commits) (history t)))"
proof -
  let ?run = "squashNonConsecutiveCommits commits msg"
  let ?s0 = "s\<lparr>faults := []\<rparr>"
  let ?later = "collectLater (firstOf commits) (history t)"
  let ?calls = "[OpBranch, OpLog None, OpCheckoutNew (tempName (clock s)),
              OpReset Hard (ParentOf (Some (last commits)))]
             @ map OpCherryPick (rev commits)
             @ [OpReset Soft (ParentOf (Some (last commits))), OpCommit msg, OpRevParseHead,
                OpCheckout (current s), OpReset Hard (ParentOf (Some (last commits))),
                OpCherryPick (squashed p msg commits)]
             @ map OpCherryPick (rev ?later)
             @ [OpBranchDelete (tempName (clock s))]"
  note listed = selectCommits_listed [OF sel]
  have ch': "concat (map changes (rev commits)) \<noteq> []" using ch by auto
  have nf0: "faults ?s0 = []" and t0: "tip ?s0 = Some t"
    and f0: "tempName (clock ?s0) \<notin> fst ` set (branches ?s0)"
    using t fresh by simp_all
  note run0 = squashNonConsecutiveCommits_run [OF nf0 t0 f0 listed(2) par ch', of msg]
  have 1: "fst (?run s) = Inr ()" if "faults s = []"
    using that squashNonConsecutiveCommits_run [OF that t fresh listed(2) par ch', of msg]
    by simp
  have 2: "newCalls s (snd (?run s)) = ?calls" if ok: "fst (?run s) = Inr ()"
  proof -
    from squashNonConsecutiveCommits_unfaulted [OF ok] run0
    have "(snd (?run s))\<lparr>faults := []\<rparr> =
        s\<lparr>faults := [],
          trace := trace s @ generalCalls (current s) (tempName (clock s)) (last commits)
                   (squashed p msg commits) commits msg ?later,
          branches := AList.update (current s)
                      (replay (squashed p msg commits) (rev ?later)) (branches s),
          staged := [], modified := []\<rparr>"
      by simp
    from arg_cong [OF this, of trace]
    have "trace (snd (?run s)) =
        trace s @ generalCalls (current s) (tempName (clock s)) (last commits)
          (squashed p msg commits) commits msg ?later"
      by simp
    then show ?thesis by (simp add: newCalls_def generalCalls_def)
  qed
  have 3: "pickedOn (current s) ?calls =
      map (Pair (tempName (clock s))) (rev commits)
      @ [(current s, squashed p msg commits)]
      @ map (Pair (current s)) (rev ?later)"
    by (simp add: pickedOn_picks)
  have 4: "sorted_wrt (\<lambda>a b. newer (history t) b a) (rev commits)"
    using listed(1) by (simp add: sorted_wrt_rev)
  have 5: "sorted_wrt (\<lambda>a b. newer (history t) b a) (rev ?later)"
    by (simp add: sorted_wrt_rev sorted_newer_later)
  have 6: "pickedOn (current s) (newCalls s (snd (?run s))) =
      map (Pair (tempName (clock s))) (rev commits)
      @ [(current s, squashed p msg commits)]
      @ map (Pair (current s)) (rev ?later)"
    if ok: "fst (?run s) = Inr ()"
    unfolding 2 [OF ok] by (rule 3)
  show ?thesis
  proof (intro conjI impI)
    show "fst (?run s) = Inr ()" if "faults s = []" using that by (rule 1)
    show "newCalls s (snd (?run s)) = ?calls" if "fst (?run s) = Inr ()"
      using that by (rule 2)
    show "pickedOn (current s) (newCalls s (snd (?run s))) =
      map (Pair (tempName (clock s))) (rev commits)
      @ [(current s, squashed p msg commits)]
      @ map (Pair (current s)) (rev ?later)"
      if "fst (?run s) = Inr ()"
      using that by (rule 6)
    show "sorted_wrt (\<lambda>a b. newer (history t) b a) (rev commits)" by (rule 4)
    show "sorted_wrt (\<lambda>a b. newer (history t) b a) (rev ?later)" by (rule 5)
  qed
qed

theorem cherry_pick_order_witness:
  "tip repo5 = Some commit5 \<and>
   selectCommits (take 10 (history commit5)) [commit2, commit4] = Some [commit4, commit2] \<and>
   fst (squashNonConsecutiveCommits [commit4, commit2] ''both'' repo5) = Inr () \<and>
   pickedOn ''main''
     (newCalls repo5 (snd (squashNonConsecutiveCommits [commit4, commit2] ''both'' repo5))) =
     [(''temp-squash-42'', commit2), (''temp-squash-42'', commit4),
      (''main'', squashed commit1 ''both'' [commit4, commit2]), (''main'', commit5)] \<and>
   newer (history commit5) commit4 commit2"
proof -
  have sel: "selectCommits (take 10 (history commit5)) [commit2, commit4]
      = Some [commit4, commit2]"
    by code_simp
  have par: "parent (last [commit4, commit2]) = Some commit1" by (simp add: parents5)
  have ch: "concat (map changes [commit4, commit2]) \<noteq> []" by (simp add: contents5)
  have later: "collectLater (firstOf [commit4, commit2]) (history commit5) = [commit5]"
    using distinct5 by (simp add: history5 firstOf_def at_def)
  from cherry_pick_order [OF repo5_facts(2) fresh5 sel par ch, of "''both''"]
    later sel
  show ?thesis by (simp add: repo5_facts temp42)
qed

text \<open>
  C6, as amended. \<^verbatim>\<open>squashCommits\<close> does not validate the selection against a fresh history.
  When the selection holds a commit that is not in the history of the tip and no call fails,
  the run calls status, saves the stash if there are uncommitted changes, reads the log for
  the classifier, which answers \<^verbatim>\<open>false\<close>, and starts the general path: it creates the temporary
  branch and checks it out.

  The claim as stated fails. On the repository whose newest commit was amended, the run with
  the selection of the old commit five and of four resets the temporary branch hard,
  cherry-picks, commits and resets the original branch hard; it fails only at the
  cherry-pick of the root commit, and it leaves the original branch at the new commit on top
  of three.
\<close>

theorem stale_selection_is_not_checked:
  assumes nf: "faults s = []" and t: "tip s = Some t"
      and fresh: "tempName (clock s) \<notin> fst ` set (branches s)"
      and stale: "c \<in> set commits" "c \<notin> set (history t)"
  shows "\<exists>rest. newCalls s (snd (squashCommits commits msg False s)) =
     OpStatus # (if staged s @ unstaged s \<noteq> [] then [OpStashSave stashLabel] else [])
     @ [OpLog (Some (length commits)), OpBranch, OpLog None,
        OpCheckoutNew (tempName (clock s))] @ rest"
proof -
  let ?files = "staged s @ unstaged s"
  let ?s1 = "s\<lparr>trace := trace s @ [OpStatus]\<rparr>"
  have 1: "git_status s = (Inr ?files, ?s1)" using nf by (rule git_status_run)
  have nf1: "faults ?s1 = []" using nf by simp
  from stashIfDirty_ok [OF nf1, of ?files]
  obtain s2 where 2: "stashIfDirty ?files ?s1 = (Inr (), s2)" and nf2: "faults s2 = []"
    and b2: "branches s2 = branches s" and cur2: "current s2 = current s"
    and c2: "clock s2 = clock s"
    and tr2: "trace s2 = trace s @ OpStatus
      # (if ?files \<noteq> [] then [OpStashSave stashLabel] else [])"
    by auto
  have t2: "tip s2 = Some t" using t b2 cur2 by (simp add: tip_def)
  have f2: "tempName (clock s2) \<notin> fst ` set (branches s2)" using fresh b2 c2 by simp
  obtain r1 where r1: "trace (snd (rewrite commits msg s2)) =
     trace s2 @ [OpLog (Some (length commits)), OpBranch, OpLog None,
                OpCheckoutNew (tempName (clock s2))] @ r1"
    using stale_rewrite_starts [OF nf2 t2 f2 stale] by blast
  obtain r2 where r2: "trace (snd (squashCommits commits msg False s))
     = trace (snd (rewrite commits msg s2)) @ r2"
    using squashCommits_after_rewrite [OF 1 2] by blast
  show ?thesis
    unfolding newCalls_def r2 r1 tr2 c2 by (intro exI [of _ "r1 @ r2"]) simp
qed

theorem stale_selection_is_not_checked_witness:
  "commit5 \<in> set [commit5, commit4] \<and> commit5 \<notin> set (history commit5b) \<and>
   (\<exists>rest. newCalls moved5 (snd (squashCommits [commit5, commit4] ''both'' False moved5)) =
      [OpStatus, OpLog (Some 2), OpBranch, OpLog None, OpCheckoutNew ''temp-squash-42''] @ rest)"
proof -
  have c: "commit5 \<in> set [commit5, commit4]" by simp
  from stale_selection_is_not_checked [OF moved5_facts(1,2) fresh5b c stale5, of "''both''"]
    stale5
  show ?thesis by (simp add: moved5_facts temp42 numeral_2_eq_2)
qed

theorem stale_selection_is_not_checked_counterexample:
  "commit5 \<notin> set (history commit5b) \<and>
   tip emptyPick5 = Some commit5b \<and>
   fst (squashCommits [commit5, commit4] ''both'' False emptyPick5) = Exited 1 \<and>
   take 15 (newCalls emptyPick5
     (snd (squashCommits [commit5, commit4] ''both'' False emptyPick5))) =
     [OpStatus, OpLog (Some 2), OpBranch, OpLog None, OpCheckoutNew ''temp-squash-42'',
      OpReset Hard (ParentOf (Some commit4)), OpCherryPick commit4, OpCherryPick commit5,
      OpReset Soft (ParentOf (Some commit4)), OpCommit ''both'', OpRevParseHead,
      OpCheckout ''main'', OpReset Hard (ParentOf (Some commit4)),
      OpCherryPick (Commit (Some commit3) ''both'' [''d'', ''e'']), OpCherryPick commit1] \<and>
   \<not> list_all readOnly (newCalls emptyPick5
     (snd (squashCommits [commit5, commit4] ''both'' False emptyPick5))) \<and>
   map_of (branches (snd (squashCommits [commit5, commit4] ''both'' False emptyPick5))) ''main''
     = Some (Commit (Some commit3) ''both'' [''d'', ''e''])"
  by code_simp

text \<open>
  C10. When the oldest selected commit, \<^verbatim>\<open>commits[commits.length - 1]\<close>, is a root commit, both
  paths fail and make no new commit. The fast path fails at its first call, the soft reset to
  \<^verbatim>\<open>c~1\<close>, and moves no branch. The general path fails too: it calls neither cherry-pick nor
  commit, and every branch tip it leaves is a tip that was there before. When no call fails
  for another reason, the error of both paths is that of the revision \<^verbatim>\<open>c~1\<close>.
\<close>

theorem root_commit_fails:
  assumes "lastOf commits = Some c" "parent c = None"
  shows "isl (fst (squashLatestCommits commits msg s))
       \<and> newCalls s (snd (squashLatestCommits commits msg s)) = [OpReset Soft (ParentOf (Some c))]
       \<and> branches (snd (squashLatestCommits commits msg s)) = branches s
       \<and> (faults s = [] \<longrightarrow>
            fst (squashLatestCommits commits msg s) = Inl (BadRevision (ParentOf (Some c))))
       \<and> isl (fst (squashNonConsecutiveCommits commits msg s))
       \<and> list_all (\<lambda>op. \<not> isCherryPick op \<and> op \<noteq> OpCommit msg)
           (newCalls s (snd (squashNonConsecutiveCommits commits msg s)))
       \<and> snd ` set (branches (snd (squashNonConsecutiveCommits commits msg s)))
           \<subseteq> snd ` set (branches s)
       \<and> (faults s = [] \<and> tip s \<noteq> None \<and> tempName (clock s) \<notin> fst ` set (branches s) \<longrightarrow>
            fst (squashNonConsecutiveCommits commits msg s)
              = Inl (BadRevision (ParentOf (Some c))))"
  using fast_root [OF assms, of msg s] general_root [OF assms, of msg s]
    general_root_error [OF assms, of s _ msg]
  by auto

theorem root_commit_fails_witness:
  "lastOf [commit2, commit1] = Some commit1 \<and> parent commit1 = None \<and>
   fst (squashLatestCommits [commit2, commit1] ''both'' repo5)
     = Inl (BadRevision (ParentOf (Some commit1))) \<and>
   branches (snd (squashLatestCommits [commit2, commit1] ''both'' repo5)) = [(''main'', commit5)] \<and>
   fst (squashNonConsecutiveCommits [commit2, commit1] ''both'' repo5)
     = Inl (BadRevision (ParentOf (Some commit1)))"
proof -
  have l: "lastOf [commit2, commit1] = Some commit1" by (simp add: lastOf_def at_def)
  from root_commit_fails [OF l parents5(5), of "''both''" repo5] l parents5(5) fresh5
  show ?thesis by (simp add: repo5_facts)
qed

text \<open>
  C2. When a run of the general path fails and has not reached the hard reset of the original
  branch (its calls hold no checkout of that branch directly followed by a hard reset), the
  tip of the original branch after the run is its tip before the run. This covers a failure
  of the branch query, of the log, of the creation of the temporary branch, of any call of
  phase 3 on the temporary branch, and of the checkout that returns to the original branch;
  whatever the \<^verbatim>\<open>catch\<close> block then does.
\<close>

theorem failure_before_reset_keeps_tip:
  assumes run: "squashNonConsecutiveCommits commits msg s = (Inl e, s')"
      and before: "\<not> resetsOriginal (current s) (newCalls s s')"
  shows "map_of (branches s') (current s) = tip s"
proof -
  let ?cur = "current s" and ?tmp = "tempName (clock s)"
  from prelude_cases [OF run]
  show ?thesis
  proof
    assume "isl (Inl e :: error + unit) \<and> branches s' = branches s"
    then show ?thesis by (simp add: tip_def)
  next
    assume "\<exists>t. tip s = Some t \<and> ?tmp \<notin> fst ` set (branches s) \<and>
        tryCatch (tryBlock ?cur ?tmp (collectLater (firstOf commits) (history t)) commits msg)
                 (catchBlock ?cur ?tmp)
           (s\<lparr>trace := trace s @ [OpBranch, OpLog None, OpCheckoutNew ?tmp],
              branches := (?tmp, t) # branches s, current := ?tmp\<rparr>) = (Inl e, s')"
    then obtain t where t: "tip s = Some t" and fresh: "?tmp \<notin> fst ` set (branches s)"
      and tc: "tryCatch (tryBlock ?cur ?tmp (collectLater (firstOf commits) (history t)) commits msg)
                 (catchBlock ?cur ?tmp)
           (s\<lparr>trace := trace s @ [OpBranch, OpLog None, OpCheckoutNew ?tmp],
              branches := (?tmp, t) # branches s, current := ?tmp\<rparr>) = (Inl e, s')"
      by blast
    let ?later = "collectLater (firstOf commits) (history t)"
    let ?s3 = "s\<lparr>trace := trace s @ [OpBranch, OpLog None, OpCheckoutNew ?tmp],
              branches := (?tmp, t) # branches s, current := ?tmp\<rparr>"
    have curB: "map_of (branches s) ?cur = Some t" using t by (simp add: tip_def)
    then have "?cur \<in> fst ` set (branches s)" by (metis map_of_eq_None_iff option.distinct(1))
    with fresh have neq: "?cur \<noteq> ?tmp" by metis
    have c3: "current ?s3 \<noteq> ?cur" using neq by simp
    have b3: "map_of (branches ?s3) ?cur = Some t" using neq curB by simp
    obtain r4 s4 where rh: "reconstructHistory commits msg ?s3 = (r4, s4)"
      by (cases "reconstructHistory commits msg ?s3")
    from keepsBranchD [OF keepsBranch_reconstructHistory c3, of commits msg] rh
    have c4: "current s4 = ?tmp" and b4: "map_of (branches s4) ?cur = Some t"
      using b3 by simp_all
    obtain k4 where k4: "trace s4 = trace ?s3 @ k4"
      using emitsD [OF emits_reconstructHistory, of commits msg ?s3] rh by (metis snd_conv)
    show ?thesis
    proof (cases r4)
      case (Inl e4)
      then have "tryBlock ?cur ?tmp ?later commits msg ?s3 = (Inl e4, s4)"
        using rh by (simp add: tryBlock_def await_def)
      with tc have "catchBlock ?cur ?tmp e4 s4 = (Inl e, s')" by (simp add: tryCatch_def)
      with catchBlock_keeps [OF neq, of e4 s4] b4 t show ?thesis by simp
    next
      case (Inr on)
      obtain oldest new where on: "on = (oldest, new)" by (cases on)
      obtain r5 s5 where co: "git_checkout ?cur s4 = (r5, s5)" by (cases "git_checkout ?cur s4")
      show ?thesis
      proof (cases r5)
        case (Inl e5)
        then have "branches s5 = branches s4"
          using co by (auto simp: git_checkout_def call_def Let_def split: if_splits option.splits)
        moreover have "tryBlock ?cur ?tmp ?later commits msg ?s3 = (Inl e5, s5)"
          using rh Inr on co Inl by (simp add: tryBlock_def applyToMainBranch_def await_def)
        with tc have "catchBlock ?cur ?tmp e5 s5 = (Inl e, s')" by (simp add: tryCatch_def)
        ultimately show ?thesis using catchBlock_keeps [OF neq, of e5 s5] b4 t by simp
      next
        case ok: (Inr u)
        let ?r = "ParentOf (Some oldest)"
        let ?rest = "await (git_reset Hard ?r) (\<lambda>_.
           await (git_cherry_pick new) (\<lambda>_.
           if ?later \<noteq> [] then forEach (rev ?later) git_cherry_pick else ret ()))"
        let ?f = "await ?rest (\<lambda>_. git_branch_delete ?tmp)"
        have t5: "trace s5 = trace s4 @ [OpCheckout ?cur]"
          using co by (auto simp: git_checkout_def call_def Let_def split: if_splits option.splits)
        have "tryBlock ?cur ?tmp ?later commits msg ?s3 = ?f s5"
          using rh Inr on co ok by (simp add: tryBlock_def applyToMainBranch_def await_def)
        with tc have f: "tryCatch ?f (catchBlock ?cur ?tmp) s5 = (Inl e, s')"
          by (simp add: tryCatch_def)
        have "\<exists>r1. trace (snd (?rest s5)) = trace s5 @ OpReset Hard ?r # r1"
          by (rule await_starts [where P = historyCall and ?r1.0 = "[]"])
             (auto simp: git_reset_trace)
        then obtain r1 where "trace (snd (?rest s5)) = trace s5 @ OpReset Hard ?r # r1" by blast
        then have "\<exists>r2. trace (snd (?f s5)) = trace s5 @ OpReset Hard ?r # r2"
          by (rule await_starts [where P = historyCall]) auto
        then obtain r2 where "trace (snd (?f s5)) = trace s5 @ OpReset Hard ?r # r2" by blast
        then have "\<exists>r3. trace (snd (tryCatch ?f (catchBlock ?cur ?tmp) s5))
            = trace s5 @ OpReset Hard ?r # r3"
          by (rule tryCatch_starts [where P = historyCall]) (rule emits_catchBlock)
        then obtain r3 where "trace s' = trace s5 @ OpReset Hard ?r # r3" using f by auto
        then have "newCalls s s' =
            ([OpBranch, OpLog None, OpCheckoutNew ?tmp] @ k4)
              @ OpCheckout ?cur # OpReset Hard ?r # r3"
          using t5 k4 by (simp add: newCalls_def)
        then have "resetsOriginal ?cur (newCalls s s')" by (simp only: resetsOriginalI)
        with before show ?thesis by simp
      qed
    qed
  qed
qed

theorem failure_before_reset_keeps_tip_witness:
  "fst (squashNonConsecutiveCommits [commit4, commit2] ''both'' conflict5)
     = Inl (GitFailed (OpCheckout ''main'')) \<and>
   \<not> resetsOriginal (current conflict5)
       (newCalls conflict5 (snd (squashNonConsecutiveCommits [commit4, commit2] ''both'' conflict5))) \<and>
   tip conflict5 = Some commit5 \<and>
   map_of (branches (snd (squashNonConsecutiveCommits [commit4, commit2] ''both'' conflict5)))
     ''main'' = Some commit5"
proof -
  let ?s' = "conflictAtCatch\<lparr>trace := trace conflictAtCatch @ [OpCheckout ''main'']\<rparr>"
  have b: "\<not> resetsOriginal (current conflict5) (newCalls conflict5 ?s')"
    by (simp add: resetsOriginal_def newCalls_def conflictAtCatch_def conflict5_facts)
  from failure_before_reset_keeps_tip [OF conflict_run b] b
  show ?thesis unfolding conflict_run by (simp add: conflict5_facts)
qed

text \<open>
  C5. The property fails on the code, by a defect of the code: the checkout of line 157 is
  awaited without a handler, unlike the deletion of line 159. On the repository with five
  commits and the selection of four and two, let the cherry-pick of four fail. When the
  checkout of the \<^verbatim>\<open>catch\<close> block succeeds, the run deletes the temporary branch and throws
  the error of the cherry-pick. When that checkout fails too, as git makes it fail while the
  conflict is unresolved, the run throws the error of the checkout, never calls the deletion
  and leaves the temporary branch checked out.
\<close>

theorem cleanup_checkout_is_not_guarded:
  "fst (squashNonConsecutiveCommits [commit4, commit2] ''both'' pickFails5)
     = Inl (GitFailed (OpCherryPick commit4)) \<and>
   newCalls pickFails5 (snd (squashNonConsecutiveCommits [commit4, commit2] ''both'' pickFails5))
     = [OpBranch, OpLog None, OpCheckoutNew ''temp-squash-42'',
        OpReset Hard (ParentOf (Some commit2)), OpCherryPick commit2, OpCherryPick commit4,
        OpCheckout ''main'', OpBranchDelete ''temp-squash-42''] \<and>
   fst (squashNonConsecutiveCommits [commit4, commit2] ''both'' conflict5)
     = Inl (GitFailed (OpCheckout ''main'')) \<and>
   newCalls conflict5 (snd (squashNonConsecutiveCommits [commit4, commit2] ''both'' conflict5))
     = [OpBranch, OpLog None, OpCheckoutNew ''temp-squash-42'',
        OpReset Hard (ParentOf (Some commit2)), OpCherryPick commit2, OpCherryPick commit4,
        OpCheckout ''main''] \<and>
   current (snd (squashNonConsecutiveCommits [commit4, commit2] ''both'' conflict5))
     = ''temp-squash-42'' \<and>
   map fst (branches (snd (squashNonConsecutiveCommits [commit4, commit2] ''both'' conflict5)))
     = [''temp-squash-42'', ''main'']"
  by code_simp
end
